theory Spec2Isabelle
  imports Complex_Main "HOL-Library.AList" "HOL-Library.Char_ord" "HOL-Library.List_Lexorder"
begin

section \<open>Data model of the detection engine\<close>

text \<open>
  The engine of \<^verbatim>\<open>detectionEngine.ts\<close> is embedded here. Account ids, transaction ids
  and pattern tags are strings. A timestamp is the value of \<^verbatim>\<open>Date.getTime()\<close>:
  an integer number of milliseconds. A JavaScript \<^verbatim>\<open>Map\<close> iterates in insertion
  order and \<^verbatim>\<open>set\<close> on a present key keeps the key's position, so a \<^verbatim>\<open>Map\<close> is an
  association list with \<open>map_of\<close> for \<^verbatim>\<open>get\<close> and \<open>AList.update\<close> for \<^verbatim>\<open>set\<close>;
  a \<^verbatim>\<open>Set\<close> of strings is a list without repetitions in insertion order.
\<close>

text \<open>
  A JavaScript number as the CSV parser produces it: not a number, a finite value or an
  infinity. The engine never reads the amount of a transaction.
\<close>

datatype number = NaN | Finite rat | PosInfinity | NegInfinity

record Transaction =
  transaction_id :: string
  sender_id :: string
  receiver_id :: string
  amount :: number
  timestamp :: int

record GraphNode =
  node_id :: string
  outEdges :: "(string \<times> nat) list"
  inEdges :: "(string \<times> nat) list"
  node_transactions :: "Transaction list"
  totalTxCount :: nat

type_synonym graph = "(string \<times> GraphNode) list"

subsection \<open>Graph builder\<close>

definition getOrCreate :: "graph \<Rightarrow> string \<Rightarrow> graph" where
  "getOrCreate nodes i =
     (case map_of nodes i of
        None \<Rightarrow> nodes @ [(i, \<lparr>node_id = i, outEdges = [], inEdges = [],
                              node_transactions = [], totalTxCount = 0\<rparr>)]
      | Some _ \<Rightarrow> nodes)"

definition edgeCount :: "(string \<times> nat) list \<Rightarrow> string \<Rightarrow> nat" where
  "edgeCount edges k = (case map_of edges k of None \<Rightarrow> 0 | Some c \<Rightarrow> c)"

text \<open>
  One iteration of the loop of \<^verbatim>\<open>buildGraph\<close>. The source mutates the two node objects
  in place; here each mutation is an update of the entry stored under the node's key, in
  the order of the source, so a transaction whose sender is its receiver updates one
  node four times.
\<close>

definition addTransaction :: "graph \<Rightarrow> Transaction \<Rightarrow> graph" where
  "addTransaction nodes0 tx =
     (let s = sender_id tx; r = receiver_id tx;
          nodes1 = getOrCreate nodes0 s;
          nodes2 = getOrCreate nodes1 r;
          nodes3 = AList.map_entry s
            (\<lambda>n. n\<lparr>outEdges := AList.update r (edgeCount (outEdges n) r + 1) (outEdges n)\<rparr>) nodes2;
          nodes4 = AList.map_entry r
            (\<lambda>n. n\<lparr>inEdges := AList.update s (edgeCount (inEdges n) s + 1) (inEdges n)\<rparr>) nodes3;
          nodes5 = AList.map_entry s
            (\<lambda>n. n\<lparr>node_transactions := node_transactions n @ [tx],
                    totalTxCount := totalTxCount n + 1\<rparr>) nodes4
      in AList.map_entry r (\<lambda>n. n\<lparr>totalTxCount := totalTxCount n + 1\<rparr>) nodes5)"

definition buildGraph :: "Transaction list \<Rightarrow> graph" where
  "buildGraph txs = foldl addTransaction [] txs"

subsection \<open>Strings\<close>

text \<open>\<^verbatim>\<open>Array.prototype.join\<close> with a separator.\<close>

fun join :: "string \<Rightarrow> string list \<Rightarrow> string" where
  "join sep [] = []"
| "join sep [x] = x"
| "join sep (x # y # ys) = x @ sep @ join sep (y # ys)"

subsection \<open>Shell-chain detector\<close>

record shell_state =
  chains :: "string list list"
  reportedChains :: "string list"

text \<open>The separator of the deduplication key is the arrow U+2192, here its UTF-8 bytes.\<close>

definition arrow :: string where
  "arrow = [CHR 0xE2, CHR 0x86, CHR 0x92]"

text \<open>\<^verbatim>\<open>newPath.slice(1, -1)\<close>: everything except the first and the last element.\<close>

definition interior :: "'a list \<Rightarrow> 'a list" where
  "interior xs = butlast (tl xs)"

text \<open>\<^verbatim>\<open>(nodes.get(id)?.totalTxCount || 0) <= 3\<close>\<close>

definition lowActivity :: "graph \<Rightarrow> string \<Rightarrow> bool" where
  "lowActivity nodes i = ((case map_of nodes i of None \<Rightarrow> 0 | Some n \<Rightarrow> totalTxCount n) \<le> 3)"

text \<open>The block guarded by \<^verbatim>\<open>newPath.length >= 3\<close>.\<close>

definition reportChain :: "graph \<Rightarrow> string list \<Rightarrow> shell_state \<Rightarrow> shell_state" where
  "reportChain nodes newPath st =
     (if list_all (lowActivity nodes) (interior newPath) then
        (let key = join arrow newPath in
         if key \<in> set (reportedChains st) then st
         else st\<lparr>chains := chains st @ [newPath], reportedChains := reportedChains st @ [key]\<rparr>)
      else st)"

text \<open>
  The loop \<^verbatim>\<open>for (const neighbor of node.outEdges.keys())\<close> of the inner \<^verbatim>\<open>dfs\<close> of
  \<^verbatim>\<open>detectShellNetworks\<close>, for the node object \<open>node\<close> of \<^verbatim>\<open>current\<close> and the neighbours
  still to visit. The recursive call \<^verbatim>\<open>dfs(neighbor, newPath)\<close> returns at once when
  \<^verbatim>\<open>nodes.get(neighbor)\<close> is undefined and runs the loop of that node otherwise.
\<close>

function shell_loop ::
  "graph \<Rightarrow> GraphNode \<Rightarrow> string list \<Rightarrow> string list \<Rightarrow> shell_state \<Rightarrow> shell_state" where
  "shell_loop nodes node path [] st = st"
| "shell_loop nodes node path (neighbor # rest) st =
     (if neighbor \<in> set path then shell_loop nodes node path rest st
      else if length path > 0 \<and> \<not> (totalTxCount node \<le> 3) then shell_loop nodes node path rest st
      else
        (let newPath = path @ [neighbor];
             st1 = (if length newPath \<ge> 3 then reportChain nodes newPath st else st);
             st2 = (if length newPath < 7 then
                      (case map_of nodes neighbor of
                         None \<Rightarrow> st1
                       | Some n \<Rightarrow> shell_loop nodes n newPath (map fst (outEdges n)) st1)
                    else st1)
         in shell_loop nodes node path rest st2))"
  by pat_completeness auto
termination
  by (relation "measures [\<lambda>(nodes, node, path, nbs, st). 7 - length path,
                          \<lambda>(nodes, node, path, nbs, st). length nbs]") auto

definition shell_dfs :: "graph \<Rightarrow> string \<Rightarrow> string list \<Rightarrow> shell_state \<Rightarrow> shell_state" where
  "shell_dfs nodes current path st =
     (case map_of nodes current of
        None \<Rightarrow> st
      | Some node \<Rightarrow> shell_loop nodes node path (map fst (outEdges node)) st)"

definition detectShellNetworks :: "graph \<Rightarrow> string list list" where
  "detectShellNetworks nodes =
     chains (foldl (\<lambda>st nodeId. shell_dfs nodes nodeId [nodeId] st)
               \<lparr>chains = [], reportedChains = []\<rparr> (map fst nodes))"

subsection \<open>Cycle detector\<close>

record cycle_state =
  cycles :: "string list list"
  allCycleStrings :: "string list"

text \<open>
  \<^verbatim>\<open>cycle.reduce((a, b) => (a < b ? a : b))\<close>: strings compare lexicographically by
  character code. The call is made on a path of at least three accounts.
\<close>

fun smallest :: "string list \<Rightarrow> string" where
  "smallest (x # xs) = foldl (\<lambda>a b. if a < b then a else b) x xs"

text \<open>\<^verbatim>\<open>indexOf\<close> of an element that occurs: the index of its first occurrence.\<close>

definition indexOf :: "'a list \<Rightarrow> 'a \<Rightarrow> nat" where
  "indexOf xs x = length (takeWhile (\<lambda>y. y \<noteq> x) xs)"

definition normalized :: "string list \<Rightarrow> string list" where
  "normalized cycle = (let minIdx = indexOf cycle (smallest cycle) in drop minIdx cycle @ take minIdx cycle)"

text \<open>The block \<^emph>\<open>Found a cycle\<close> of the inner \<^verbatim>\<open>dfs\<close> of \<^verbatim>\<open>detectCycles\<close>.\<close>

definition foundCycle :: "string list \<Rightarrow> cycle_state \<Rightarrow> cycle_state" where
  "foundCycle path st =
     (let key = join '','' (normalized path) in
      if key \<in> set (allCycleStrings st) then st
      else st\<lparr>cycles := cycles st @ [path], allCycleStrings := allCycleStrings st @ [key]\<rparr>)"

text \<open>
  The loop over \<^verbatim>\<open>node.outEdges.keys()\<close> of the inner \<^verbatim>\<open>dfs\<close>. The source pushes the
  neighbour on \<^verbatim>\<open>path\<close> and \<^verbatim>\<open>visited\<close>, recurses and pops both; here the extended
  path and visited set are passed to the recursive call and the loop goes on with the
  old ones.
\<close>

function cycle_loop ::
  "graph \<Rightarrow> string \<Rightarrow> string list \<Rightarrow> string list \<Rightarrow> string list \<Rightarrow> cycle_state \<Rightarrow> cycle_state" where
  "cycle_loop nodes start path visited [] st = st"
| "cycle_loop nodes start path visited (neighbor # rest) st =
     (if neighbor = start \<and> length path \<ge> 3 \<and> length path \<le> 5 then
        cycle_loop nodes start path visited rest (foundCycle path st)
      else if neighbor \<notin> set visited \<and> length path < 5 then
        (let st1 = (case map_of nodes neighbor of
                      None \<Rightarrow> st
                    | Some n \<Rightarrow> cycle_loop nodes start (path @ [neighbor]) (visited @ [neighbor])
                                 (map fst (outEdges n)) st)
         in cycle_loop nodes start path visited rest st1)
      else cycle_loop nodes start path visited rest st)"
  by pat_completeness auto
termination
  by (relation "measures [\<lambda>(nodes, start, path, visited, nbs, st). 5 - length path,
                          \<lambda>(nodes, start, path, visited, nbs, st). length nbs]") auto

definition cycle_dfs ::
  "graph \<Rightarrow> string \<Rightarrow> string \<Rightarrow> string list \<Rightarrow> string list \<Rightarrow> cycle_state \<Rightarrow> cycle_state" where
  "cycle_dfs nodes start current path visited st =
     (case map_of nodes current of
        None \<Rightarrow> st
      | Some node \<Rightarrow> cycle_loop nodes start path visited (map fst (outEdges node)) st)"

definition detectCycles :: "graph \<Rightarrow> string list list" where
  "detectCycles nodes =
     cycles (foldl (\<lambda>st nodeId. cycle_dfs nodes nodeId nodeId [nodeId] [nodeId] st)
               \<lparr>cycles = [], allCycleStrings = []\<rparr> (map fst nodes))"

subsection \<open>Smurfing detector\<close>

definition SMURF_THRESHOLD :: nat where
  "SMURF_THRESHOLD = 10"

definition SMURF_WINDOW_MS :: int where
  "SMURF_WINDOW_MS = 72 * 60 * 60 * 1000"

datatype smurf_type = fan_in | fan_out

record SmurfResult =
  type :: smurf_type
  account :: string
  counterparties :: "string list"

text \<open>
  \<^verbatim>\<open>if (!m.has(k)) m.set(k, []); m.get(k)!.push(tx)\<close>, the grouping step of
  \<^verbatim>\<open>detectSmurfing\<close>.
\<close>

definition groupPush ::
  "(string \<times> Transaction list) list \<Rightarrow> string \<Rightarrow> Transaction \<Rightarrow> (string \<times> Transaction list) list" where
  "groupPush m k tx =
     AList.map_entry k (\<lambda>txs. txs @ [tx]) (if map_of m k = None then AList.update k [] m else m)"

definition byReceiver :: "Transaction list \<Rightarrow> (string \<times> Transaction list) list" where
  "byReceiver txs = foldl (\<lambda>m tx. groupPush m (receiver_id tx) tx) [] txs"

definition bySender :: "Transaction list \<Rightarrow> (string \<times> Transaction list) list" where
  "bySender txs = foldl (\<lambda>m tx. groupPush m (sender_id tx) tx) [] txs"

text \<open>
  The inner loop \<^verbatim>\<open>while (sorted[right].timestamp - sorted[left].timestamp > W) left++\<close>
  of the three sliding windows. It stops at \<open>left = right\<close> at the latest, where the
  difference is \<open>0\<close>; the guard \<open>left < right\<close> states that.
\<close>

function advanceLeft :: "int \<Rightarrow> Transaction list \<Rightarrow> nat \<Rightarrow> nat \<Rightarrow> nat" where
  "advanceLeft w sortedTxs left right =
     (if left < right \<and> timestamp (sortedTxs ! right) - timestamp (sortedTxs ! left) > w
      then advanceLeft w sortedTxs (left + 1) right else left)"
  by pat_completeness auto
termination
  by (relation "measure (\<lambda>(w, sortedTxs, left, right). right - left)") auto

declare advanceLeft.simps [simp del]

text \<open>\<^verbatim>\<open>[...new Set(xs)]\<close>: the elements of \<open>xs\<close> in the order of their first occurrence.\<close>

definition uniq :: "'a list \<Rightarrow> 'a list" where
  "uniq xs = foldl (\<lambda>s x. if x \<in> set s then s else s @ [x]) [] xs"

text \<open>\<^verbatim>\<open>xs.slice(a, b)\<close> for \<open>0 \<le> a\<close> and \<open>0 \<le> b\<close>.\<close>

definition slice :: "'a list \<Rightarrow> nat \<Rightarrow> nat \<Rightarrow> 'a list" where
  "slice xs a b = take (b - a) (drop a xs)"

text \<open>
  The loop \<^verbatim>\<open>for (let right = 0; ...)\<close> of one account, from the state \<open>(left, right)\<close>;
  \<open>party\<close> is \<^verbatim>\<open>sender_id\<close> for fan-in and \<^verbatim>\<open>receiver_id\<close> for fan-out. The result is
  the counterparties of the first qualifying window, \<open>None\<close> when the loop ends without one.
\<close>

function smurfScan ::
  "(Transaction \<Rightarrow> string) \<Rightarrow> Transaction list \<Rightarrow> nat \<Rightarrow> nat \<Rightarrow> string list option" where
  "smurfScan party sortedTxs left right =
     (if right < length sortedTxs then
        (let left' = advanceLeft SMURF_WINDOW_MS sortedTxs left right;
             window = slice sortedTxs left' (right + 1);
             unique = uniq (map party window)
         in if length unique \<ge> SMURF_THRESHOLD then Some unique
            else smurfScan party sortedTxs left' (right + 1))
      else None)"
  by pat_completeness auto
termination
  by (relation "measure (\<lambda>(party, sortedTxs, left, right). length sortedTxs - right)") auto

declare smurfScan.simps [simp del]

definition fanCheck ::
  "smurf_type \<Rightarrow> (Transaction \<Rightarrow> string) \<Rightarrow> string \<times> Transaction list \<Rightarrow> SmurfResult list" where
  "fanCheck ty party entry =
     (case smurfScan party (sort_key timestamp (snd entry)) 0 0 of
        None \<Rightarrow> []
      | Some unique \<Rightarrow> [\<lparr>type = ty, account = fst entry, counterparties = unique\<rparr>])"

definition detectSmurfing :: "Transaction list \<Rightarrow> SmurfResult list" where
  "detectSmurfing txs =
     concat (map (fanCheck fan_in sender_id) (byReceiver txs)) @
     concat (map (fanCheck fan_out receiver_id) (bySender txs))"

subsection \<open>False-positive control and velocity\<close>

definition accountTxs :: "string \<Rightarrow> Transaction list \<Rightarrow> Transaction list" where
  "accountTxs a txs = filter (\<lambda>t. sender_id t = a \<or> receiver_id t = a) txs"

text \<open>
  \<^verbatim>\<open>spanDays\<close> is the quotient of two integers below \<open>2^53\<close>; it is kept as a rational.
  The double the source computes is at least 30 exactly when the rational is.
\<close>

definition isMerchantLike :: "string \<Rightarrow> graph \<Rightarrow> Transaction list \<Rightarrow> bool" where
  "isMerchantLike a nodes txs =
     (case map_of nodes a of
        None \<Rightarrow> False
      | Some node \<Rightarrow>
          (let atxs = accountTxs a txs in
           if length atxs < 20 then False
           else
             (let times = map timestamp atxs;
                  minTime = Min (set times);
                  maxTime = Max (set times);
                  spanDays = (of_int (maxTime - minTime) :: rat) / (1000 * 60 * 60 * 24)
              in spanDays \<ge> 30)))"

function velocityScan :: "Transaction list \<Rightarrow> nat \<Rightarrow> nat \<Rightarrow> bool" where
  "velocityScan sortedTxs left right =
     (if right < length sortedTxs then
        (let left' = advanceLeft (24 * 60 * 60 * 1000) sortedTxs left right
         in if int right - int left' + 1 \<ge> 5 then True
            else velocityScan sortedTxs left' (right + 1))
      else False)"
  by pat_completeness auto
termination
  by (relation "measure (\<lambda>(sortedTxs, left, right). length sortedTxs - right)") auto

declare velocityScan.simps [simp del]

definition hasHighVelocity :: "string \<Rightarrow> Transaction list \<Rightarrow> bool" where
  "hasHighVelocity a txs = velocityScan (sort_key timestamp (accountTxs a txs)) 0 0"

section \<open>The main detection engine\<close>

record SuspiciousAccount =
  account_id :: string
  suspicion_score :: rat
  detected_patterns :: "string list"
  sa_ring_id :: "string option"

record FraudRing =
  ring_id :: string
  member_accounts :: "string list"
  pattern_type :: string
  risk_score :: rat

record DetectionSummary =
  total_accounts_analyzed :: nat
  suspicious_accounts_flagged :: nat
  fraud_rings_detected :: nat

record DetectionResult =
  suspicious_accounts :: "SuspiciousAccount list"
  fraud_rings :: "FraudRing list"
  summary :: DetectionSummary

text \<open>
  The accumulators of \<^verbatim>\<open>runDetection\<close>: the maps \<^verbatim>\<open>scores\<close>, \<^verbatim>\<open>patterns\<close> and
  \<^verbatim>\<open>ringMembership\<close>, the list \<^verbatim>\<open>fraudRings\<close> and the counter \<^verbatim>\<open>ringCounter\<close>.
  Scores are JavaScript numbers; every value a score takes is an integer between 0 and
  100, which a double holds exactly, so they are rationals here. The wall-clock field
  \<^verbatim>\<open>processing_time_seconds\<close> of the summary is left out.
\<close>

record engine_state =
  scores :: "(string \<times> rat) list"
  patterns :: "(string \<times> string list) list"
  ringMembership :: "(string \<times> string) list"
  fraudRings :: "FraudRing list"
  ringCounter :: nat

definition initial_state :: engine_state where
  "initial_state = \<lparr>scores = [], patterns = [], ringMembership = [], fraudRings = [], ringCounter = 1\<rparr>"

subsection \<open>Ring identifiers\<close>

text \<open>\<^verbatim>\<open>String(n)\<close> for a natural number: its decimal digits.\<close>

definition digit_char :: "nat \<Rightarrow> char" where
  "digit_char d = char_of (48 + d)"

function decimal :: "nat \<Rightarrow> string" where
  "decimal n = (if n < 10 then [digit_char n] else decimal (n div 10) @ [digit_char (n mod 10)])"
  by pat_completeness auto
termination
  by (relation "measure id") auto

declare decimal.simps [simp del]

text \<open>The number that a string of decimal digits denotes.\<close>

definition decimal_val :: "string \<Rightarrow> nat" where
  "decimal_val s = foldl (\<lambda>n c. 10 * n + (of_char c - 48)) 0 s"

definition padStart :: "nat \<Rightarrow> char \<Rightarrow> string \<Rightarrow> string" where
  "padStart n c s = replicate (n - length s) c @ s"

definition ringIdOf :: "nat \<Rightarrow> string" where
  "ringIdOf k = ''RING_'' @ padStart 3 (CHR ''0'') (decimal k)"

subsection \<open>Score, pattern and ring accumulators\<close>

definition addScore :: "string \<Rightarrow> rat \<Rightarrow> engine_state \<Rightarrow> engine_state" where
  "addScore a points st =
     st\<lparr>scores := AList.update a
          (min 100 ((case map_of (scores st) a of None \<Rightarrow> 0 | Some v \<Rightarrow> v) + points)) (scores st)\<rparr>"

definition addPattern :: "string \<Rightarrow> string \<Rightarrow> engine_state \<Rightarrow> engine_state" where
  "addPattern a pattern st =
     st\<lparr>patterns := AList.map_entry a (\<lambda>ps. if pattern \<in> set ps then ps else ps @ [pattern])
          (if map_of (patterns st) a = None then AList.update a [] (patterns st) else patterns st)\<rparr>"

definition setRing :: "string \<Rightarrow> string \<Rightarrow> engine_state \<Rightarrow> engine_state" where
  "setRing a ringId st = st\<lparr>ringMembership := AList.update a ringId (ringMembership st)\<rparr>"

definition pushRing :: "FraudRing \<Rightarrow> engine_state \<Rightarrow> engine_state" where
  "pushRing ring st = st\<lparr>fraudRings := fraudRings st @ [ring]\<rparr>"

text \<open>\<^verbatim>\<open>ringCounter++\<close>: the state with the counter advanced; the id uses the old value.\<close>

definition nextCounter :: "engine_state \<Rightarrow> engine_state" where
  "nextCounter st = st\<lparr>ringCounter := ringCounter st + 1\<rparr>"

subsection \<open>The three detector passes\<close>

definition cycleStep :: "engine_state \<Rightarrow> string list \<Rightarrow> engine_state" where
  "cycleStep st cycle =
     (let ringId = ringIdOf (ringCounter st);
          cycleLength = length cycle;
          st1 = foldl (\<lambda>s a. setRing a ringId
                         (addPattern a (''cycle_length_'' @ decimal cycleLength) (addScore a 45 s)))
                  (nextCounter st) cycle;
          members = uniq cycle
      in pushRing \<lparr>ring_id = ringId, member_accounts = members, pattern_type = ''cycle'',
                   risk_score = min 100 (45 + (if cycleLength \<ge> 4 then 15 else 0))\<rparr> st1)"

text \<open>\<^verbatim>\<open>!existingRingId\<close>: no entry, or the empty string.\<close>

definition noRingId :: "string option \<Rightarrow> bool" where
  "noRingId r = (case r of None \<Rightarrow> True | Some i \<Rightarrow> i = [])"

definition smurfStep :: "engine_state \<Rightarrow> SmurfResult \<Rightarrow> engine_state" where
  "smurfStep st smurf =
     (let st1 = addScore (account smurf) 30 st;
          st2 = addPattern (account smurf)
                  (if type smurf = fan_in then ''fan_in_smurfing'' else ''fan_out_smurfing'') st1;
          existingRingId = map_of (ringMembership st2) (account smurf)
      in if noRingId existingRingId then
           (let ringId = ringIdOf (ringCounter st2);
                st3 = setRing (account smurf) ringId (nextCounter st2);
                members = account smurf # slice (counterparties smurf) 0 20
            in pushRing \<lparr>ring_id = ringId, member_accounts = members,
                  pattern_type = (if type smurf = fan_in then ''smurfing_fan_in'' else ''smurfing_fan_out''),
                  risk_score = min 100 (30 + of_nat (length (counterparties smurf)) * (3 / 2))\<rparr> st3)
         else st2)"

text \<open>
  One iteration over \<^verbatim>\<open>shellChains\<close>. A reported chain has at least three accounts, so
  \<^verbatim>\<open>chain[0]\<close> is its head and \<^verbatim>\<open>chain[chain.length - 1]\<close> its last element.
\<close>

definition shellStep :: "engine_state \<Rightarrow> string list \<Rightarrow> engine_state" where
  "shellStep st chain =
     (let st1 = foldl (\<lambda>s a. addPattern a ''shell_intermediary'' (addScore a 35 s)) st (interior chain);
          st2 = addScore (hd chain) 20 st1;
          st3 = addScore (last chain) 20 st2;
          st4 = addPattern (hd chain) ''shell_chain'' st3;
          st5 = addPattern (last chain) ''shell_chain'' st4
      in if map_of (ringMembership st5) (hd chain) = None then
           (let ringId = ringIdOf (ringCounter st5);
                st6 = foldl (\<lambda>s m. setRing m ringId s) (nextCounter st5) chain
            in pushRing \<lparr>ring_id = ringId, member_accounts = chain, pattern_type = ''shell_chain'',
                  risk_score = min 100 (35 + of_nat (length chain) * 5)\<rparr> st6)
         else st5)"

subsection \<open>Multiple-pattern bonus and velocity\<close>

definition bonusStep :: "Transaction list \<Rightarrow> engine_state \<Rightarrow> string \<Rightarrow> engine_state" where
  "bonusStep txs st a =
     (let st1 = (case map_of (patterns st) a of
                   None \<Rightarrow> st
                 | Some patternSet \<Rightarrow> if length patternSet \<ge> 2 then addScore a 15 st else st)
      in if hasHighVelocity a txs then addPattern a ''high_velocity'' (addScore a 10 st1) else st1)"

text \<open>The state after the four accumulating passes of \<^verbatim>\<open>runDetection\<close>.\<close>

definition accumulate :: "Transaction list \<Rightarrow> engine_state" where
  "accumulate txs =
     (let nodes = buildGraph txs;
          st1 = foldl cycleStep initial_state (detectCycles nodes);
          st2 = foldl smurfStep st1 (detectSmurfing txs);
          st3 = foldl shellStep st2 (detectShellNetworks nodes)
      in foldl (bonusStep txs) st3 (map fst nodes))"

subsection \<open>False-positive filter and output\<close>

text \<open>\<^verbatim>\<open>String.prototype.includes\<close>: \<open>sub\<close> occurs in \<open>s\<close> as a contiguous substring.\<close>

fun str_includes :: "string \<Rightarrow> string \<Rightarrow> bool" where
  "str_includes [] sub = (sub = [])"
| "str_includes (c # cs) sub = (take (length sub) (c # cs) = sub \<or> str_includes cs sub)"

definition hasMaliciousPattern :: "string list \<Rightarrow> bool" where
  "hasMaliciousPattern patternSet =
     list_ex (\<lambda>p. str_includes p ''cycle'' \<or> str_includes p ''smurfing'' \<or> str_includes p ''shell'') patternSet"

text \<open>\<^verbatim>\<open>Math.round\<close> rounds to the nearest integer, a half upwards.\<close>

definition js_round :: "rat \<Rightarrow> rat" where
  "js_round x = of_int \<lfloor>x + 1 / 2\<rfloor>"

definition patternsOf :: "engine_state \<Rightarrow> string \<Rightarrow> string list" where
  "patternsOf st a = (case map_of (patterns st) a of None \<Rightarrow> [] | Some ps \<Rightarrow> ps)"

text \<open>\<^verbatim>\<open>ringMembership.get(account) || null\<close>\<close>

definition ringOf :: "engine_state \<Rightarrow> string \<Rightarrow> string option" where
  "ringOf st a = (case map_of (ringMembership st) a of None \<Rightarrow> None | Some r \<Rightarrow> if r = [] then None else Some r)"

text \<open>One iteration of the loop over the entries of \<^verbatim>\<open>scores\<close>: the accounts it pushes.\<close>

definition emitAccount ::
  "graph \<Rightarrow> Transaction list \<Rightarrow> engine_state \<Rightarrow> string \<times> rat \<Rightarrow> SuspiciousAccount list" where
  "emitAccount nodes txs st entry =
     (if snd entry \<le> 0 then []
      else if \<not> hasMaliciousPattern (patternsOf st (fst entry)) \<and> isMerchantLike (fst entry) nodes txs then []
      else [\<lparr>account_id = fst entry, suspicion_score = js_round (snd entry * 10) / 10,
              detected_patterns = patternsOf st (fst entry), sa_ring_id = ringOf st (fst entry)\<rparr>])"

text \<open>
  The comparator \<^verbatim>\<open>b.suspicion_score - a.suspicion_score\<close> with the stable
  \<^verbatim>\<open>Array.prototype.sort\<close>: descending by score, equal scores in their earlier order.
\<close>

definition suspiciousOf :: "graph \<Rightarrow> Transaction list \<Rightarrow> engine_state \<Rightarrow> SuspiciousAccount list" where
  "suspiciousOf nodes txs st =
     sort_key (\<lambda>a. - suspicion_score a) (concat (map (emitAccount nodes txs st) (scores st)))"

definition memberScore :: "SuspiciousAccount list \<Rightarrow> string \<Rightarrow> rat" where
  "memberScore accts m =
     (case find (\<lambda>a. account_id a = m) accts of None \<Rightarrow> 0 | Some a \<Rightarrow> suspicion_score a)"

text \<open>
  The final update of a ring's risk score. The source computes it with doubles; here the
  arithmetic is exact.
\<close>

definition updateRisk :: "SuspiciousAccount list \<Rightarrow> FraudRing \<Rightarrow> FraudRing" where
  "updateRisk accts ring =
     (let memberScores = map (memberScore accts) (member_accounts ring) in
      if length memberScores > 0 then
        ring\<lparr>risk_score :=
          js_round ((Max (set memberScores) * (6 / 10)
                     + (foldl (+) 0 memberScores / of_nat (length memberScores)) * (4 / 10)) * 10) / 10\<rparr>
      else ring)"

definition runDetection :: "Transaction list \<Rightarrow> DetectionResult" where
  "runDetection txs =
     (let nodes = buildGraph txs;
          allAccounts = map fst nodes;
          st = accumulate txs;
          suspiciousAccounts = suspiciousOf nodes txs st;
          rings = map (updateRisk suspiciousAccounts) (fraudRings st)
      in \<lparr>suspicious_accounts = suspiciousAccounts, fraud_rings = rings,
          summary = \<lparr>total_accounts_analyzed = length allAccounts,
                     suspicious_accounts_flagged = length suspiciousAccounts,
                     fraud_rings_detected = length rings\<rparr>\<rparr>)"

section \<open>The CSV parser\<close>

text \<open>
  \<^verbatim>\<open>parseCSV\<close> and \<^verbatim>\<open>parseCSVLine\<close>. Strings are lists of 8-bit characters, so the
  string operations are those of the ASCII range: \<^verbatim>\<open>trim\<close> removes tab, line feed,
  vertical tab, form feed, carriage return and space, and \<^verbatim>\<open>toLowerCase\<close> maps
  \<open>A\<close>...\<open>Z\<close>. The constructor \<^verbatim>\<open>new Date(...)\<close> belongs to the JavaScript engine and
  engines differ on some out-of-range dates, so the parser takes it as the parameter
  \<open>mkDate\<close>; its result \<open>None\<close> is an invalid date, whose \<^verbatim>\<open>getTime()\<close> is \<^verbatim>\<open>NaN\<close>.
\<close>

record ParseError =
  row :: nat
  message :: string

record ParseResult =
  transactions :: "Transaction list"
  errors :: "ParseError list"

definition REQUIRED_COLUMNS :: "string list" where
  "REQUIRED_COLUMNS = [''transaction_id'', ''sender_id'', ''receiver_id'', ''amount'', ''timestamp'']"

definition isWhiteSpace :: "char \<Rightarrow> bool" where
  "isWhiteSpace c \<longleftrightarrow> c \<in> set [CHR 0x09, CHR 0x0A, CHR 0x0B, CHR 0x0C, CHR 0x0D, CHR 0x20]"

definition trim :: "string \<Rightarrow> string" where
  "trim s = rev (dropWhile isWhiteSpace (rev (dropWhile isWhiteSpace s)))"

text \<open>\<^verbatim>\<open>s.split(c)\<close> for a separator of one character.\<close>

fun split_loop :: "char \<Rightarrow> string \<Rightarrow> string \<Rightarrow> string list" where
  "split_loop c current [] = [current]"
| "split_loop c current (x # xs) =
     (if x = c then current # split_loop c [] xs else split_loop c (current @ [x]) xs)"

definition split :: "char \<Rightarrow> string \<Rightarrow> string list" where
  "split c s = split_loop c [] s"

definition toLowerCase :: "string \<Rightarrow> string" where
  "toLowerCase s = map (\<lambda>c. if CHR ''A'' \<le> c \<and> c \<le> CHR ''Z'' then char_of (of_char c + (32 :: nat)) else c) s"

text \<open>\<^verbatim>\<open>h.replace(/^"|"$/g, "")\<close>: a double quote at the start and one at the end go.\<close>

definition stripQuotes :: "string \<Rightarrow> string" where
  "stripQuotes s =
     (let s1 = (if s \<noteq> [] \<and> hd s = CHR 0x22 then tl s else s)
      in if s1 \<noteq> [] \<and> last s1 = CHR 0x22 then butlast s1 else s1)"

text \<open>The loop of \<^verbatim>\<open>parseCSVLine\<close> over the characters, with its three variables.\<close>

fun parseCSVLine_loop :: "string \<Rightarrow> string \<Rightarrow> bool \<Rightarrow> string list \<Rightarrow> string list" where
  "parseCSVLine_loop [] current inQuotes result = result @ [current]"
| "parseCSVLine_loop (ch # rest) current inQuotes result =
     (if ch = CHR 0x22 then parseCSVLine_loop rest current (\<not> inQuotes) result
      else if ch = CHR '','' \<and> \<not> inQuotes then parseCSVLine_loop rest [] inQuotes (result @ [current])
      else parseCSVLine_loop rest (current @ [ch]) inQuotes result)"

definition parseCSVLine :: "string \<Rightarrow> string list" where
  "parseCSVLine line = parseCSVLine_loop line [] False []"

definition isDigit :: "char \<Rightarrow> bool" where
  "isDigit c \<longleftrightarrow> CHR ''0'' \<le> c \<and> c \<le> CHR ''9''"

text \<open>The exponent part at the start of a string, 0 when there is none.\<close>

definition exponentOf :: "string \<Rightarrow> int" where
  "exponentOf r =
     (if r \<noteq> [] \<and> (hd r = CHR ''e'' \<or> hd r = CHR ''E'') then
        (let r1 = tl r;
             r2 = (if r1 \<noteq> [] \<and> (hd r1 = CHR ''+'' \<or> hd r1 = CHR ''-'') then tl r1 else r1);
             ds = takeWhile isDigit r2
         in if ds = [] then 0
            else if r1 \<noteq> [] \<and> hd r1 = CHR ''-'' then - int (decimal_val ds) else int (decimal_val ds))
      else 0)"

text \<open>
  \<^verbatim>\<open>parseFloat\<close>: white space is skipped, then the longest prefix that is a decimal
  literal (sign, \<^verbatim>\<open>Infinity\<close> or digits with an optional fraction and exponent) is
  read; the result is \<^verbatim>\<open>NaN\<close> when there is no such prefix. The value is the exact
  rational number the literal denotes: the rounding to a double, the overflow of a
  literal beyond the range of doubles and the negative zero are not modelled.
\<close>

definition parseFloat :: "string \<Rightarrow> number" where
  "parseFloat str =
     (let s0 = dropWhile isWhiteSpace str;
          neg = (s0 \<noteq> [] \<and> hd s0 = CHR ''-'');
          s1 = (if s0 \<noteq> [] \<and> (hd s0 = CHR ''+'' \<or> hd s0 = CHR ''-'') then tl s0 else s0)
      in if take 8 s1 = ''Infinity'' then (if neg then NegInfinity else PosInfinity)
         else
           (let ip = takeWhile isDigit s1;
                r1 = dropWhile isDigit s1;
                hasDot = (r1 \<noteq> [] \<and> hd r1 = CHR ''.'');
                fp = (if hasDot then takeWhile isDigit (tl r1) else []);
                r2 = (if hasDot then dropWhile isDigit (tl r1) else r1)
            in if ip = [] \<and> fp = [] then NaN
               else
                 (let m = (of_nat (decimal_val ip) + of_nat (decimal_val fp) / 10 ^ length fp :: rat);
                      e = exponentOf r2;
                      v = (if e \<ge> 0 then m * 10 ^ nat e else m / 10 ^ nat (- e))
                  in Finite (if neg then - v else v))))"

text \<open>\<^verbatim>\<open>/^\d{4}-\d{2}-\d{2} \d{2}:\d{2}:\d{2}$/.test(s)\<close>\<close>

definition TIMESTAMP_REGEX :: "string \<Rightarrow> bool" where
  "TIMESTAMP_REGEX s \<longleftrightarrow>
     length s = 19 \<and>
     list_all (\<lambda>i. isDigit (s ! i)) [0, 1, 2, 3, 5, 6, 8, 9, 11, 12, 14, 15, 17, 18] \<and>
     s ! 4 = CHR ''-'' \<and> s ! 7 = CHR ''-'' \<and> s ! 10 = CHR '' '' \<and> s ! 13 = CHR '':'' \<and> s ! 16 = CHR '':''"

text \<open>\<^verbatim>\<open>s.replace(" ", "T")\<close>: the first space becomes a \<open>T\<close>.\<close>

fun replaceSpace :: "string \<Rightarrow> string" where
  "replaceSpace [] = []"
| "replaceSpace (c # cs) = (if c = CHR '' '' then CHR ''T'' # cs else c # replaceSpace cs)"

text \<open>\<^verbatim>\<open>headers.indexOf(name)\<close>, and \<^verbatim>\<open>(cols[i] || "")\<close> for an index that may be out of range.\<close>

definition colIndex :: "string list \<Rightarrow> string \<Rightarrow> int" where
  "colIndex headers name = (if name \<in> set headers then int (indexOf headers name) else - 1)"

definition colAt :: "string list \<Rightarrow> int \<Rightarrow> string" where
  "colAt cols i = (if 0 \<le> i \<and> nat i < length cols then cols ! nat i else [])"

datatype row_result = Skipped | Rejected ParseError | Accepted Transaction

text \<open>The body of the loop over the data lines, for the line \<^verbatim>\<open>lines[i]\<close> and \<open>rowNum = i + 1\<close>.\<close>

definition parseRow :: "(string \<Rightarrow> int option) \<Rightarrow> string list \<Rightarrow> nat \<Rightarrow> string \<Rightarrow> row_result" where
  "parseRow mkDate headers rowNum rawLine =
     (let line = trim rawLine in
      if line = [] then Skipped
      else
        (let cols = parseCSVLine line;
             tid = trim (colAt cols (colIndex headers ''transaction_id''));
             sender = trim (colAt cols (colIndex headers ''sender_id''));
             receiver = trim (colAt cols (colIndex headers ''receiver_id''));
             amountStr = trim (colAt cols (colIndex headers ''amount''));
             timestampStr = trim (colAt cols (colIndex headers ''timestamp''))
         in if tid = [] \<or> sender = [] \<or> receiver = [] then
              Rejected \<lparr>row = rowNum,
                        message = ''Row '' @ decimal rowNum @ '': Missing required string fields.''\<rparr>
            else
              (let amt = parseFloat amountStr in
               if amt = NaN then
                 Rejected \<lparr>row = rowNum,
                           message = ''Row '' @ decimal rowNum @ '': Invalid amount '' @ [CHR 0x22] @ amountStr @
                                     [CHR 0x22, CHR '' '', CHR 0xE2, CHR 0x80, CHR 0x94] @ '' must be a number.''\<rparr>
               else if \<not> TIMESTAMP_REGEX timestampStr then
                 Rejected \<lparr>row = rowNum,
                           message = ''Row '' @ decimal rowNum @ '': Invalid timestamp '' @ [CHR 0x22] @ timestampStr @
                                     [CHR 0x22, CHR '' '', CHR 0xE2, CHR 0x80, CHR 0x94] @ '' must be YYYY-MM-DD HH:MM:SS.''\<rparr>
               else
                 (case mkDate (replaceSpace timestampStr @ ''Z'') of
                    None \<Rightarrow>
                      Rejected \<lparr>row = rowNum,
                                message = ''Row '' @ decimal rowNum @ '': Could not parse timestamp '' @ [CHR 0x22] @
                                          timestampStr @ [CHR 0x22] @ ''.''\<rparr>
                  | Some ts \<Rightarrow>
                      Accepted \<lparr>transaction_id = tid, sender_id = sender, receiver_id = receiver,
                                amount = amt, timestamp = ts\<rparr>))))"

definition rowStep :: "(string \<Rightarrow> int option) \<Rightarrow> string list \<Rightarrow> ParseResult \<Rightarrow> nat \<times> string \<Rightarrow> ParseResult" where
  "rowStep mkDate headers res il =
     (case parseRow mkDate headers (fst il + 1) (snd il) of
        Skipped \<Rightarrow> res
      | Rejected e \<Rightarrow> res\<lparr>errors := errors res @ [e]\<rparr>
      | Accepted t \<Rightarrow> res\<lparr>transactions := transactions res @ [t]\<rparr>)"

definition parseCSV :: "(string \<Rightarrow> int option) \<Rightarrow> string \<Rightarrow> ParseResult" where
  "parseCSV mkDate csvText =
     (let lines = split (CHR 0x0A) (trim csvText) in
      if length lines < 2 then
        \<lparr>transactions = [], errors = [\<lparr>row = 0, message = ''CSV file is empty or has no data rows.''\<rparr>]\<rparr>
      else
        (let headers = map (\<lambda>h. stripQuotes (toLowerCase (trim h))) (split (CHR '','') (hd lines));
             errors0 = concat (map (\<lambda>col. if col \<in> set headers then []
                                        else [\<lparr>row = 0, message = ''Missing required column: '' @ [CHR 0x22] @ col @ [CHR 0x22]\<rparr>])
                                REQUIRED_COLUMNS)
         in if length errors0 > 0 then \<lparr>transactions = [], errors = errors0\<rparr>
            else foldl (rowStep mkDate headers) \<lparr>transactions = [], errors = []\<rparr>
                   (zip [1..<length lines] (tl lines))))"

subsection \<open>A model of the date constructor\<close>

text \<open>
  The milliseconds since the epoch of a string \<open>YYYY-MM-DDTHH:MM:SSZ\<close> that denotes a
  date of the calendar, as every engine computes them; \<open>None\<close> for any other string.
\<close>

definition isLeap :: "int \<Rightarrow> bool" where
  "isLeap y \<longleftrightarrow> (y mod 4 = 0 \<and> y mod 100 \<noteq> 0) \<or> y mod 400 = 0"

definition leapsBefore :: "int \<Rightarrow> int" where
  "leapsBefore y = (y - 1) div 4 - (y - 1) div 100 + (y - 1) div 400"

definition daysInMonth :: "int \<Rightarrow> int \<Rightarrow> int" where
  "daysInMonth y m = (if m = 2 then (if isLeap y then 29 else 28) else if m \<in> {4, 6, 9, 11} then 30 else 31)"

definition daysBeforeMonth :: "int \<Rightarrow> int \<Rightarrow> int" where
  "daysBeforeMonth y m =
     [0, 31, 59, 90, 120, 151, 181, 212, 243, 273, 304, 334] ! nat (m - 1) + (if isLeap y \<and> m > 2 then 1 else 0)"

definition utcDate :: "string \<Rightarrow> int option" where
  "utcDate s =
     (if length s = 20 \<and> TIMESTAMP_REGEX ((take 19 s)[10 := CHR '' '']) \<and> s ! 10 = CHR ''T'' \<and> s ! 19 = CHR ''Z'' then
        (let y = int (decimal_val (take 4 s)); m = int (decimal_val (take 2 (drop 5 s)));
             d = int (decimal_val (take 2 (drop 8 s))); h = int (decimal_val (take 2 (drop 11 s)));
             mi = int (decimal_val (take 2 (drop 14 s))); se = int (decimal_val (take 2 (drop 17 s)))
         in if 1 \<le> m \<and> m \<le> 12 \<and> 1 \<le> d \<and> d \<le> daysInMonth y m \<and> h \<le> 23 \<and> mi \<le> 59 \<and> se \<le> 59 then
              Some (((((365 * (y - 1970) + (leapsBefore y - leapsBefore 1970) + daysBeforeMonth y m + (d - 1)) * 24
                       + h) * 60 + mi) * 60 + se) * 1000)
            else None)
      else None)"

section \<open>Example inputs\<close>

definition mkTx :: "string \<Rightarrow> string \<Rightarrow> string \<Rightarrow> int \<Rightarrow> Transaction" where
  "mkTx i s r t = \<lparr>transaction_id = i, sender_id = s, receiver_id = r, amount = Finite 100, timestamp = t\<rparr>"

definition day_ms :: int where
  "day_ms = 1000 * 60 * 60 * 24"

text \<open>Two hops \<open>A \<rightarrow> B \<rightarrow> C\<close>; \<open>B\<close> has two transactions in total.\<close>

definition two_hop_input :: "Transaction list" where
  "two_hop_input = [mkTx ''T1'' ''A'' ''B'' 0, mkTx ''T2'' ''B'' ''C'' (2 * day_ms)]"

text \<open>
  The chain \<open>A \<rightarrow> B \<rightarrow> C \<rightarrow> D\<close> where \<open>B\<close> and \<open>C\<close> have two transactions each and
  \<open>A\<close> and \<open>D\<close> have four each, two days between any two transactions.
\<close>

definition busy_ends_input :: "Transaction list" where
  "busy_ends_input =
     [mkTx ''T1'' ''A'' ''B'' 0, mkTx ''T2'' ''B'' ''C'' (2 * day_ms), mkTx ''T3'' ''C'' ''D'' (4 * day_ms),
      mkTx ''T4'' ''A'' ''X1'' (6 * day_ms), mkTx ''T5'' ''A'' ''X2'' (8 * day_ms),
      mkTx ''T6'' ''A'' ''X3'' (10 * day_ms), mkTx ''T7'' ''D'' ''Y1'' (12 * day_ms),
      mkTx ''T8'' ''D'' ''Y2'' (14 * day_ms), mkTx ''T9'' ''D'' ''Y3'' (16 * day_ms)]"

text \<open>Two cycles \<open>A \<rightarrow> B \<rightarrow> C \<rightarrow> A\<close> and \<open>A \<rightarrow> D \<rightarrow> E \<rightarrow> A\<close> that share the account \<open>A\<close>.\<close>

definition two_cycles_input :: "Transaction list" where
  "two_cycles_input =
     [mkTx ''T1'' ''A'' ''B'' 0, mkTx ''T2'' ''B'' ''C'' (2 * day_ms), mkTx ''T3'' ''C'' ''A'' (4 * day_ms),
      mkTx ''T4'' ''A'' ''D'' (6 * day_ms), mkTx ''T5'' ''D'' ''E'' (8 * day_ms),
      mkTx ''T6'' ''E'' ''A'' (10 * day_ms)]"

text \<open>
  The two cycles \<open>A \<rightarrow> B \<rightarrow> C \<rightarrow> A\<close> and \<open>A \<rightarrow> D \<rightarrow> E \<rightarrow> A\<close>, every transfer made
  twice, so that every account has at least four transactions and no shell chain starts
  anywhere.
\<close>

definition shared_account_input :: "Transaction list" where
  "shared_account_input =
     [mkTx ''T01'' ''A'' ''B'' 0, mkTx ''T02'' ''B'' ''C'' (2 * day_ms), mkTx ''T03'' ''C'' ''A'' (4 * day_ms),
      mkTx ''T04'' ''A'' ''D'' (6 * day_ms), mkTx ''T05'' ''D'' ''E'' (8 * day_ms),
      mkTx ''T06'' ''E'' ''A'' (10 * day_ms),
      mkTx ''T07'' ''A'' ''B'' (12 * day_ms), mkTx ''T08'' ''B'' ''C'' (14 * day_ms),
      mkTx ''T09'' ''C'' ''A'' (16 * day_ms), mkTx ''T10'' ''A'' ''D'' (18 * day_ms),
      mkTx ''T11'' ''D'' ''E'' (20 * day_ms), mkTx ''T12'' ''E'' ''A'' (22 * day_ms)]"

text \<open>The cycle \<open>A \<rightarrow> B \<rightarrow> C \<rightarrow> A\<close> and the path \<open>X \<rightarrow> Y \<rightarrow> A\<close> into it.\<close>

definition cycle_then_chain_input :: "Transaction list" where
  "cycle_then_chain_input =
     [mkTx ''T1'' ''A'' ''B'' 0, mkTx ''T2'' ''B'' ''C'' (2 * day_ms), mkTx ''T3'' ''C'' ''A'' (4 * day_ms),
      mkTx ''T4'' ''X'' ''Y'' (6 * day_ms), mkTx ''T5'' ''Y'' ''A'' (8 * day_ms)]"




text \<open>A header line and one data row with the amount \<open>-750.00\<close>.\<close>

definition negative_amount_csv :: string where
  "negative_amount_csv =
     ''transaction_id,sender_id,receiver_id,amount,timestamp'' @ [CHR 0x0A] @
     ''TXN_0001,ACC_001,ACC_002,-750.00,2024-01-15 09:30:00''"

section \<open>Awards and tags, from the detector outputs\<close>

text \<open>
  The points and the pattern tags that the scoring table gives an account \<open>a\<close>, written
  from the detector outputs alone: 45 per membership in a reported cycle, 30 per smurfing
  flag, 35 per occurrence as interior account of a reported chain, 20 as first and 20 as
  last account of a reported chain.
\<close>

definition cyclePoints :: "string list list \<Rightarrow> string \<Rightarrow> nat" where
  "cyclePoints cs a = (\<Sum>c\<leftarrow>cs. 45 * count_list c a)"

definition smurfPoints :: "SmurfResult list \<Rightarrow> string \<Rightarrow> nat" where
  "smurfPoints ss a = (\<Sum>s\<leftarrow>ss. if account s = a then 30 else 0)"

definition shellPoints :: "string list list \<Rightarrow> string \<Rightarrow> nat" where
  "shellPoints cs a =
     (\<Sum>c\<leftarrow>cs. 35 * count_list (interior c) a + (if hd c = a then 20 else 0) + (if last c = a then 20 else 0))"

definition cycleTags :: "string list list \<Rightarrow> string \<Rightarrow> string list" where
  "cycleTags cs a = concat (map (\<lambda>c. if a \<in> set c then [''cycle_length_'' @ decimal (length c)] else []) cs)"

definition smurfTags :: "SmurfResult list \<Rightarrow> string \<Rightarrow> string list" where
  "smurfTags ss a =
     concat (map (\<lambda>s. if account s = a
                        then [if type s = fan_in then ''fan_in_smurfing'' else ''fan_out_smurfing'']
                        else []) ss)"

definition shellTags :: "string list list \<Rightarrow> string \<Rightarrow> string list" where
  "shellTags cs a =
     concat (map (\<lambda>c. (if a \<in> set (interior c) then [''shell_intermediary''] else []) @
                       (if hd c = a \<or> last c = a then [''shell_chain''] else [])) cs)"

text \<open>The accounts of a transaction set: every sender and every receiver.\<close>

definition accounts :: "Transaction list \<Rightarrow> string set" where
  "accounts txs = sender_id ` set txs \<union> receiver_id ` set txs"

definition detectorTags :: "Transaction list \<Rightarrow> string \<Rightarrow> string list" where
  "detectorTags txs a =
     cycleTags (detectCycles (buildGraph txs)) a @ smurfTags (detectSmurfing txs) a @
     shellTags (detectShellNetworks (buildGraph txs)) a"

text \<open>
  The bonus of 15 points for two or more distinct tags from the three detectors, and
  the 10 points for high velocity, for an account of the transaction set.
\<close>

definition bonusPoints :: "Transaction list \<Rightarrow> string \<Rightarrow> nat" where
  "bonusPoints txs a =
     (if a \<in> accounts txs
      then (if 2 \<le> card (set (detectorTags txs a)) then 15 else 0) + (if hasHighVelocity a txs then 10 else 0)
      else 0)"

definition totalPoints :: "Transaction list \<Rightarrow> string \<Rightarrow> nat" where
  "totalPoints txs a =
     cyclePoints (detectCycles (buildGraph txs)) a + smurfPoints (detectSmurfing txs) a +
     shellPoints (detectShellNetworks (buildGraph txs)) a + bonusPoints txs a"

definition finalTags :: "Transaction list \<Rightarrow> string \<Rightarrow> string list" where
  "finalTags txs a =
     detectorTags txs a @ (if a \<in> accounts txs \<and> hasHighVelocity a txs then [''high_velocity''] else [])"

text \<open>A set of pattern tags holds a cycle, smurfing or shell tag.\<close>

definition hasStructuralTag :: "string list \<Rightarrow> bool" where
  "hasStructuralTag tags \<longleftrightarrow>
     (\<exists>p \<in> set tags. str_includes p ''cycle'' \<or> str_includes p ''smurfing'' \<or> str_includes p ''shell'')"

section \<open>Invariants used in the proofs\<close>

text \<open>The deduplication key of a cycle, as \<^verbatim>\<open>detectCycles\<close> computes it.\<close>

definition cycle_key :: "string list \<Rightarrow> string" where
  "cycle_key c = join '','' (normalized c)"

text \<open>
  What holds of the accumulators of \<^verbatim>\<open>detectCycles\<close> throughout the search: every
  recorded cycle has three to five accounts, all different, its key is in the set of
  keys, and no two recorded cycles have the same key.
\<close>

definition cycle_inv :: "cycle_state \<Rightarrow> bool" where
  "cycle_inv st \<longleftrightarrow>
     (\<forall>c \<in> set (cycles st). 3 \<le> length c \<and> length c \<le> 5 \<and> distinct c \<and>
        cycle_key c \<in> set (allCycleStrings st))
     \<and> distinct (map cycle_key (cycles st))"

text \<open>
  \<open>score_is a st n\<close>: the points awarded to \<open>a\<close> so far sum to \<open>n\<close>, and the entry of
  \<open>a\<close> in \<^verbatim>\<open>scores\<close> is absent when \<open>n = 0\<close> and \<open>min 100 n\<close> otherwise.
  \<open>tags_are a st tags\<close>: the pattern set of \<open>a\<close> holds exactly the tags of the list.
\<close>

definition score_is :: "string \<Rightarrow> engine_state \<Rightarrow> nat \<Rightarrow> bool" where
  "score_is a st n \<longleftrightarrow> map_of (scores st) a = (if n = 0 then None else Some (min 100 (of_nat n)))"

definition tags_are :: "string \<Rightarrow> engine_state \<Rightarrow> string list \<Rightarrow> bool" where
  "tags_are a st tags \<longleftrightarrow> distinct (patternsOf st a) \<and> set (patternsOf st a) = set tags"

text \<open>
  The accounts whose \<^verbatim>\<open>ringMembership\<close> entry the creation of a ring sets: every member
  of a cycle ring or of a shell-chain ring, and only the flagged account, the first
  member, of a smurfing ring.
\<close>

definition assigns :: "FraudRing \<Rightarrow> string \<Rightarrow> bool" where
  "assigns ring a =
     (if pattern_type ring = ''smurfing_fan_in'' \<or> pattern_type ring = ''smurfing_fan_out''
      then take 1 (member_accounts ring) = [a]
      else a \<in> set (member_accounts ring))"

text \<open>The id of the last ring of a list that assigns the account, if there is one.\<close>

definition lastAssigned :: "FraudRing list \<Rightarrow> string \<Rightarrow> string option" where
  "lastAssigned rings a = map_option ring_id (find (\<lambda>r. assigns r a) (rev rings))"

text \<open>
  What holds of the ring accumulators between two iterations of the passes: the
  membership map gives every account the last ring that assigns it; the ring ids are
  \<open>RING_001\<close>, \<open>RING_002\<close>, ... in order of creation; the first member of a ring that is
  not a cycle ring is assigned by no earlier ring; no ring is empty.
\<close>

definition ring_inv :: "engine_state \<Rightarrow> bool" where
  "ring_inv st \<longleftrightarrow>
     (\<forall>a. map_of (ringMembership st) a = lastAssigned (fraudRings st) a) \<and>
     map ring_id (fraudRings st) = map ringIdOf [1..<ringCounter st] \<and>
     1 \<le> ringCounter st \<and>
     (\<forall>i < length (fraudRings st). pattern_type (fraudRings st ! i) \<noteq> ''cycle'' \<longrightarrow>
        member_accounts (fraudRings st ! i) \<noteq> [] \<and>
        lastAssigned (take i (fraudRings st)) (hd (member_accounts (fraudRings st ! i))) = None) \<and>
     (\<forall>ring \<in> set (fraudRings st). member_accounts ring \<noteq> [])"

text \<open>
  What holds of the chains recorded by \<^verbatim>\<open>detectShellNetworks\<close> throughout the search.
\<close>

definition shell_inv :: "graph \<Rightarrow> shell_state \<Rightarrow> bool" where
  "shell_inv nodes st \<longleftrightarrow>
     (\<forall>c \<in> set (chains st). 3 \<le> length c \<and> list_all (lowActivity nodes) (interior c))"

text \<open>
  Every account of a recorded chain but the last is a low-activity account.
\<close>

definition shell_prefix_inv :: "graph \<Rightarrow> shell_state \<Rightarrow> bool" where
  "shell_prefix_inv nodes st \<longleftrightarrow> (\<forall>c \<in> set (chains st). list_all (lowActivity nodes) (butlast c))"

section \<open>Properties of the shell-chain detector\<close>

lemma foldl_invariant:
  "P s \<Longrightarrow> (\<And>s x. P s \<Longrightarrow> P (f s x)) \<Longrightarrow> P (foldl f s xs)"
  by (induction xs arbitrary: s) simp_all

lemma reportChain_inv:
  "shell_inv nodes st \<Longrightarrow> 3 \<le> length newPath \<Longrightarrow> shell_inv nodes (reportChain nodes newPath st)"
  by (auto simp: shell_inv_def reportChain_def Let_def)

lemma shell_loop_inv:
  "shell_inv nodes st \<Longrightarrow> shell_inv nodes (shell_loop nodes node path nbs st)"
proof (induction nodes node path nbs st rule: shell_loop.induct)
  case (1 nodes node path st)
  then show ?case by simp
next
  case (2 nodes node path neighbor rest st)
  show ?case
  proof (cases "neighbor \<in> set path \<or> (length path > 0 \<and> \<not> (totalTxCount node \<le> 3))")
    case True
    then show ?thesis using 2 by auto
  next
    case False
    then have F1: "neighbor \<notin> set path" and F2: "\<not> (length path > 0 \<and> \<not> (totalTxCount node \<le> 3))"
      by auto
    define newPath where "newPath = path @ [neighbor]"
    define st1 where "st1 = (if length newPath \<ge> 3 then reportChain nodes newPath st else st)"
    define st2 where "st2 = (if length newPath < 7 then
                      (case map_of nodes neighbor of
                         None \<Rightarrow> st1
                       | Some n \<Rightarrow> shell_loop nodes n newPath (map fst (outEdges n)) st1)
                    else st1)"
    have i1: "shell_inv nodes st1"
      unfolding st1_def using "2.prems" by (simp add: reportChain_inv)
    have i2: "shell_inv nodes st2"
      unfolding st2_def using "2.IH"(3)[OF F1 F2 newPath_def st1_def] i1
      by (auto split: option.splits)
    have eq: "shell_loop nodes node path (neighbor # rest) st = shell_loop nodes node path rest st2"
      unfolding st2_def st1_def newPath_def using F1 F2 by (auto simp: Let_def)
    have "shell_inv nodes (shell_loop nodes node path rest st2)"
      using "2.IH"(4)[OF F1 F2 newPath_def st1_def st2_def] i2 by simp
    then show ?thesis
      by (simp only: eq)
  qed
qed

lemma detectShellNetworks_inv:
  "c \<in> set (detectShellNetworks nodes) \<Longrightarrow> 3 \<le> length c \<and> list_all (lowActivity nodes) (interior c)"
proof -
  have "shell_inv nodes \<lparr>chains = [], reportedChains = []\<rparr>" by (simp add: shell_inv_def)
  then have "shell_inv nodes (foldl (\<lambda>st nodeId. shell_dfs nodes nodeId [nodeId] st)
               \<lparr>chains = [], reportedChains = []\<rparr> (map fst nodes))"
    by (rule foldl_invariant) (auto simp: shell_dfs_def shell_loop_inv split: option.splits)
  then show "c \<in> set (detectShellNetworks nodes) \<Longrightarrow> ?thesis"
    by (simp add: detectShellNetworks_def shell_inv_def)
qed

lemma reportChain_prefix:
  "shell_prefix_inv nodes st \<Longrightarrow> list_all (lowActivity nodes) (butlast newPath) \<Longrightarrow>
   shell_prefix_inv nodes (reportChain nodes newPath st)"
  by (auto simp: shell_prefix_inv_def reportChain_def Let_def)

lemma shell_loop_prefix:
  "shell_prefix_inv nodes st \<Longrightarrow> path \<noteq> [] \<Longrightarrow> map_of nodes (last path) = Some node \<Longrightarrow>
   list_all (lowActivity nodes) (butlast path) \<Longrightarrow>
   shell_prefix_inv nodes (shell_loop nodes node path nbs st)"
proof (induction nodes node path nbs st rule: shell_loop.induct)
  case (1 nodes node path st)
  then show ?case by simp
next
  case (2 nodes node path neighbor rest st)
  show ?case
  proof (cases "neighbor \<in> set path \<or> (length path > 0 \<and> \<not> (totalTxCount node \<le> 3))")
    case True
    then show ?thesis using 2 by auto
  next
    case False
    then have F1: "neighbor \<notin> set path" and F2: "\<not> (length path > 0 \<and> \<not> (totalTxCount node \<le> 3))"
      by auto
    define newPath where "newPath = path @ [neighbor]"
    define st1 where "st1 = (if length newPath \<ge> 3 then reportChain nodes newPath st else st)"
    define st2 where "st2 = (if length newPath < 7 then
                      (case map_of nodes neighbor of
                         None \<Rightarrow> st1
                       | Some n \<Rightarrow> shell_loop nodes n newPath (map fst (outEdges n)) st1)
                    else st1)"
    have "lowActivity nodes (last path)"
      using F2 "2.prems"(2,3) by (simp add: lowActivity_def)
    then have "list_all (lowActivity nodes) (butlast path @ [last path])"
      using "2.prems"(4) by simp
    then have low: "list_all (lowActivity nodes) (butlast newPath)"
      using "2.prems"(2) by (simp add: newPath_def butlast_append)
    have i1: "shell_prefix_inv nodes st1"
      unfolding st1_def using "2.prems"(1) low by (simp add: reportChain_prefix)
    have i2: "shell_prefix_inv nodes st2"
    proof (cases "length newPath < 7")
      case False
      then show ?thesis using i1 by (simp add: st2_def)
    next
      case True
      show ?thesis
      proof (cases "map_of nodes neighbor")
        case None
        then show ?thesis using i1 True by (simp add: st2_def)
      next
        case (Some n)
        have "shell_prefix_inv nodes (shell_loop nodes n newPath (map fst (outEdges n)) st1)"
          using "2.IH"(3)[OF F1 F2 newPath_def st1_def True Some i1] low Some
          by (simp add: newPath_def)
        then show ?thesis using True Some by (simp add: st2_def)
      qed
    qed
    have eq: "shell_loop nodes node path (neighbor # rest) st = shell_loop nodes node path rest st2"
      unfolding st2_def st1_def newPath_def using F1 F2 by (auto simp: Let_def)
    have "shell_prefix_inv nodes (shell_loop nodes node path rest st2)"
      using "2.IH"(4)[OF F1 F2 newPath_def st1_def st2_def i2] "2.prems" by simp
    then show ?thesis
      by (simp only: eq)
  qed
qed

lemma chain_start_low_activity:
  assumes "c \<in> set (detectShellNetworks nodes)"
  shows "list_all (lowActivity nodes) (butlast c) \<and> lowActivity nodes (hd c)"
proof -
  have "shell_prefix_inv nodes \<lparr>chains = [], reportedChains = []\<rparr>" by (simp add: shell_prefix_inv_def)
  then have "shell_prefix_inv nodes (foldl (\<lambda>st nodeId. shell_dfs nodes nodeId [nodeId] st)
               \<lparr>chains = [], reportedChains = []\<rparr> (map fst nodes))"
    by (rule foldl_invariant[where P = "shell_prefix_inv nodes"])
       (auto simp: shell_dfs_def shell_loop_prefix split: option.splits)
  then have p: "list_all (lowActivity nodes) (butlast c)"
    using assms by (simp add: detectShellNetworks_def shell_prefix_inv_def)
  have "3 \<le> length c" using detectShellNetworks_inv[OF assms] by simp
  then obtain x y zs where "c = x # y # zs" by (cases c; cases "tl c") auto
  then show ?thesis using p by simp
qed

text \<open>
  C2. Every chain the shell-chain detector reports should have at least four accounts
  (three hops). On the two hops \<open>A \<rightarrow> B \<rightarrow> C\<close> the detector reports the chain
  \<open>[A, B, C]\<close> of three accounts: the test \<^verbatim>\<open>newPath.length >= 3\<close> counts accounts,
  not hops.
\<close>

theorem C2_two_hop_chain_reported:
  "detectShellNetworks (buildGraph two_hop_input) = [[''A'', ''B'', ''C'']]"
  by code_simp

text \<open>
  C3. On the chain \<open>A \<rightarrow> B \<rightarrow> C \<rightarrow> D\<close> with low-activity \<open>B\<close>, \<open>C\<close> and busy \<open>A\<close>, \<open>D\<close>
  the detector should report \<open>[A, B, C, D]\<close>, with 35 points for \<open>B\<close> and \<open>C\<close> and 20
  for \<open>A\<close> and \<open>D\<close>. It reports \<open>[B, C, D]\<close> alone: the search from \<open>A\<close> is pruned at
  its start account, since \<^verbatim>\<open>path.length > 0\<close> holds there too. \<open>B\<close> is scored as an
  endpoint and \<open>A\<close> is not flagged.
\<close>

theorem C3_busy_start_pruned:
  "detectShellNetworks (buildGraph busy_ends_input) = [[''B'', ''C'', ''D'']] \<and>
   suspicious_accounts (runDetection busy_ends_input) =
     [\<lparr>account_id = ''C'', suspicion_score = 35, detected_patterns = [''shell_intermediary''],
        sa_ring_id = Some ''RING_001''\<rparr>,
      \<lparr>account_id = ''B'', suspicion_score = 20, detected_patterns = [''shell_chain''],
        sa_ring_id = Some ''RING_001''\<rparr>,
      \<lparr>account_id = ''D'', suspicion_score = 20, detected_patterns = [''shell_chain''],
        sa_ring_id = Some ''RING_001''\<rparr>]"
  by code_simp

section \<open>Properties of the cycle detector\<close>






lemma foundCycle_inv:
  "cycle_inv st \<Longrightarrow> distinct path \<Longrightarrow> 3 \<le> length path \<Longrightarrow> length path \<le> 5 \<Longrightarrow> cycle_inv (foundCycle path st)"
  by (auto simp: cycle_inv_def foundCycle_def cycle_key_def Let_def)

lemma cycle_loop_inv:
  "cycle_inv st \<Longrightarrow> distinct path \<Longrightarrow> set path \<subseteq> set visited \<Longrightarrow>
   cycle_inv (cycle_loop nodes start path visited nbs st)"
proof (induction nodes start path visited nbs st rule: cycle_loop.induct)
  case (1 nodes start path visited st)
  then show ?case by simp
next
  case (2 nodes start path visited neighbor rest st)
  show ?case
  proof (cases "neighbor = start \<and> length path \<ge> 3 \<and> length path \<le> 5")
    case True
    then show ?thesis using 2 by (simp add: foundCycle_inv)
  next
    case False
    note F = False
    show ?thesis
    proof (cases "neighbor \<notin> set visited \<and> length path < 5")
      case True
      define st1 where "st1 = (case map_of nodes neighbor of None \<Rightarrow> st
         | Some n \<Rightarrow> cycle_loop nodes start (path @ [neighbor]) (visited @ [neighbor]) (map fst (outEdges n)) st)"
      have d': "distinct (path @ [neighbor])" "set (path @ [neighbor]) \<subseteq> set (visited @ [neighbor])"
        using True "2.prems" by auto
      have "cycle_inv st1"
        unfolding st1_def using "2.IH"(2)[OF F True _ "2.prems"(1) d'] "2.prems"(1)
        by (auto split: option.splits)
      then have "cycle_inv (cycle_loop nodes start path visited rest st1)"
        using "2.IH"(3)[OF F True st1_def] "2.prems" by simp
      then show ?thesis using F True by (auto simp: st1_def)
    next
      case False
      then show ?thesis using F 2 by auto
    qed
  qed
qed

lemma cycle_dfs_inv:
  "cycle_inv st \<Longrightarrow> cycle_inv (cycle_dfs nodes s s [s] [s] st)"
  by (auto simp: cycle_dfs_def cycle_loop_inv split: option.splits)

lemma cycle_fold_inv:
  "cycle_inv st \<Longrightarrow> cycle_inv (foldl (\<lambda>st nodeId. cycle_dfs nodes nodeId nodeId [nodeId] [nodeId] st) st ids)"
  by (induction ids arbitrary: st) (simp_all add: cycle_dfs_inv)

lemma detectCycles_inv:
  "(\<forall>c \<in> set (detectCycles nodes). 3 \<le> length c \<and> length c \<le> 5 \<and> distinct c) \<and>
   distinct (map cycle_key (detectCycles nodes))"
proof -
  have "cycle_inv \<lparr>cycles = [], allCycleStrings = []\<rparr>" by (simp add: cycle_inv_def)
  from cycle_fold_inv[OF this] show ?thesis
    unfolding detectCycles_def cycle_inv_def by blast
qed



section \<open>Scores and pattern tags through the passes\<close>

lemma addScore_fields [simp]:
  "patterns (addScore a p st) = patterns st"
  "ringMembership (addScore a p st) = ringMembership st"
  "fraudRings (addScore a p st) = fraudRings st"
  "ringCounter (addScore a p st) = ringCounter st"
  by (simp_all add: addScore_def)

lemma addPattern_fields [simp]:
  "scores (addPattern a p st) = scores st"
  "ringMembership (addPattern a p st) = ringMembership st"
  "fraudRings (addPattern a p st) = fraudRings st"
  "ringCounter (addPattern a p st) = ringCounter st"
  by (simp_all add: addPattern_def)

lemma setRing_fields [simp]:
  "scores (setRing a r st) = scores st"
  "patterns (setRing a r st) = patterns st"
  "fraudRings (setRing a r st) = fraudRings st"
  "ringCounter (setRing a r st) = ringCounter st"
  "ringMembership (setRing a r st) = AList.update a r (ringMembership st)"
  by (simp_all add: setRing_def)

lemma pushRing_fields [simp]:
  "scores (pushRing ring st) = scores st"
  "patterns (pushRing ring st) = patterns st"
  "ringMembership (pushRing ring st) = ringMembership st"
  "ringCounter (pushRing ring st) = ringCounter st"
  "fraudRings (pushRing ring st) = fraudRings st @ [ring]"
  by (simp_all add: pushRing_def)

lemma nextCounter_fields [simp]:
  "scores (nextCounter st) = scores st"
  "patterns (nextCounter st) = patterns st"
  "ringMembership (nextCounter st) = ringMembership st"
  "fraudRings (nextCounter st) = fraudRings st"
  "ringCounter (nextCounter st) = ringCounter st + 1"
  by (simp_all add: nextCounter_def)

lemma patternsOf_fields [simp]:
  "patternsOf (addScore a p st) = patternsOf st"
  "patternsOf (setRing a r st) = patternsOf st"
  "patternsOf (pushRing ring st) = patternsOf st"
  "patternsOf (nextCounter st) = patternsOf st"
  by (simp_all add: patternsOf_def fun_eq_iff)

lemma map_of_addScore:
  "map_of (scores (addScore b p st)) a =
     (if a = b then Some (min 100 ((case map_of (scores st) a of None \<Rightarrow> 0 | Some v \<Rightarrow> v) + p))
      else map_of (scores st) a)"
  by (simp add: addScore_def update_conv')

lemma score_is_addScore_same:
  "score_is a st n \<Longrightarrow> 0 < p \<Longrightarrow> score_is a (addScore a (of_nat p) st) (n + p)"
  by (auto simp: score_is_def map_of_addScore min_def)

lemma score_is_addScore_other:
  "score_is a st n \<Longrightarrow> b \<noteq> a \<Longrightarrow> score_is a (addScore b p st) n"
  by (simp add: score_is_def map_of_addScore)

lemma score_is_fields [simp]:
  "score_is a (addPattern b p st) n = score_is a st n"
  "score_is a (setRing b r st) n = score_is a st n"
  "score_is a (pushRing ring st) n = score_is a st n"
  "score_is a (nextCounter st) n = score_is a st n"
  by (simp_all add: score_is_def)

lemma map_of_map_entry_update:
  "map_of (AList.map_entry k f (if map_of m k = None then AList.update k d m else m)) x =
     (if x = k then Some (f (case map_of m k of None \<Rightarrow> d | Some v \<Rightarrow> v)) else map_of m x)"
  by (auto simp: map_of_map_entry update_conv' split: option.splits)

lemma patternsOf_addPattern:
  "patternsOf (addPattern b p st) a =
     (if a = b then (if p \<in> set (patternsOf st a) then patternsOf st a else patternsOf st a @ [p])
      else patternsOf st a)"
proof -
  have "map_of (patterns (addPattern b p st)) a =
     (if a = b then Some ((\<lambda>ps. if p \<in> set ps then ps else ps @ [p])
                            (case map_of (patterns st) b of None \<Rightarrow> [] | Some v \<Rightarrow> v))
      else map_of (patterns st) a)"
  proof -
    have "patterns (addPattern b p st) =
       AList.map_entry b (\<lambda>ps. if p \<in> set ps then ps else ps @ [p])
          (if map_of (patterns st) b = None then AList.update b [] (patterns st) else patterns st)"
      by (simp add: addPattern_def)
    then show ?thesis
      by (simp only: map_of_map_entry_update)
  qed
  then show ?thesis
    by (cases "map_of (patterns st) b") (auto simp: patternsOf_def)
qed

lemma tags_are_addPattern_same:
  "tags_are a st tags \<Longrightarrow> tags_are a (addPattern a p st) (tags @ [p])"
  by (auto simp: tags_are_def patternsOf_addPattern)

lemma tags_are_addPattern_other:
  "tags_are a st tags \<Longrightarrow> b \<noteq> a \<Longrightarrow> tags_are a (addPattern b p st) tags"
  by (auto simp: tags_are_def patternsOf_addPattern)

lemma tags_are_fields [simp]:
  "tags_are a (addScore b p st) tags = tags_are a st tags"
  "tags_are a (setRing b r st) tags = tags_are a st tags"
  "tags_are a (pushRing ring st) tags = tags_are a st tags"
  "tags_are a (nextCounter st) tags = tags_are a st tags"
  by (simp_all add: tags_are_def)

lemma tags_are_cong: "tags_are a st tags \<Longrightarrow> set tags = set tags' \<Longrightarrow> tags_are a st tags'"
  by (simp add: tags_are_def)

subsection \<open>Cycle pass\<close>

lemma cycle_members_score:
  "score_is a st n \<Longrightarrow>
   score_is a (foldl (\<lambda>s x. setRing x r (addPattern x t (addScore x 45 s))) st c) (n + 45 * count_list c a)"
proof (induction c arbitrary: st n)
  case Nil
  then show ?case by simp
next
  case (Cons x c)
  show ?case
  proof (cases "x = a")
    case True
    have "score_is a (addScore a (of_nat 45) st) (n + 45)"
      using Cons.prems by (intro score_is_addScore_same) simp_all
    then have "score_is a (setRing a r (addPattern a t (addScore a 45 st))) (n + 45)" by simp
    from Cons.IH[OF this] show ?thesis using True by (simp add: algebra_simps)
  next
    case False
    have "score_is a (setRing x r (addPattern x t (addScore x 45 st))) n"
      using Cons.prems False by (simp add: score_is_addScore_other)
    from Cons.IH[OF this] show ?thesis using False by simp
  qed
qed

lemma cycle_members_tags:
  "tags_are a st tags \<Longrightarrow>
   tags_are a (foldl (\<lambda>s x. setRing x r (addPattern x t (addScore x 45 s))) st c)
     (tags @ (if a \<in> set c then [t] else []))"
proof (induction c arbitrary: st tags)
  case Nil
  then show ?case by simp
next
  case (Cons x c)
  show ?case
  proof (cases "x = a")
    case True
    have "tags_are a (setRing a r (addPattern a t (addScore a 45 st))) (tags @ [t])"
      using Cons.prems by (simp add: tags_are_addPattern_same)
    from Cons.IH[OF this] show ?thesis using True
      by (auto elim!: tags_are_cong split: if_splits)
  next
    case False
    have "tags_are a (setRing x r (addPattern x t (addScore x 45 st))) tags"
      using Cons.prems False by (simp add: tags_are_addPattern_other)
    from Cons.IH[OF this] show ?thesis using False by simp
  qed
qed

lemma cycleStep_score:
  "score_is a st n \<Longrightarrow> score_is a (cycleStep st c) (n + 45 * count_list c a)"
  unfolding cycleStep_def Let_def score_is_fields by (rule cycle_members_score) simp

lemma cycleStep_tags:
  "tags_are a st tags \<Longrightarrow>
   tags_are a (cycleStep st c) (tags @ (if a \<in> set c then [''cycle_length_'' @ decimal (length c)] else []))"
  unfolding cycleStep_def Let_def tags_are_fields by (rule cycle_members_tags) simp

lemma cyclePass_score:
  "score_is a st n \<Longrightarrow> score_is a (foldl cycleStep st cs) (n + cyclePoints cs a)"
proof (induction cs arbitrary: st n)
  case Nil
  then show ?case by (simp add: cyclePoints_def)
next
  case (Cons c cs)
  from Cons.IH[OF cycleStep_score[OF Cons.prems, of c]] show ?case
    by (simp add: cyclePoints_def add.assoc)
qed

lemma cyclePass_tags:
  "tags_are a st tags \<Longrightarrow> tags_are a (foldl cycleStep st cs) (tags @ cycleTags cs a)"
proof (induction cs arbitrary: st tags)
  case Nil
  then show ?case by (simp add: cycleTags_def)
next
  case (Cons c cs)
  from Cons.IH[OF cycleStep_tags[OF Cons.prems, of c]] show ?case
    by (simp add: cycleTags_def)
qed

lemma score_step:
  "score_is a st n \<Longrightarrow> p = of_nat k \<Longrightarrow> 0 < k \<Longrightarrow>
   score_is a (addScore b p st) (if b = a then n + k else n)"
  by (auto simp: score_is_addScore_same score_is_addScore_other)

lemma tags_step:
  "tags_are a st tags \<Longrightarrow> tags_are a (addPattern b p st) (if b = a then tags @ [p] else tags)"
  by (auto simp: tags_are_addPattern_same tags_are_addPattern_other)

subsection \<open>Smurfing pass\<close>

lemma smurfStep_score:
  "score_is a st n \<Longrightarrow> score_is a (smurfStep st s) (n + (if account s = a then 30 else 0))"
  using score_step[of a st n 30 30 "account s"]
  by (auto simp: smurfStep_def Let_def)

lemma smurfStep_tags:
  "tags_are a st tags \<Longrightarrow>
   tags_are a (smurfStep st s)
     (tags @ (if account s = a then [if type s = fan_in then ''fan_in_smurfing'' else ''fan_out_smurfing''] else []))"
  using tags_step[of a "addScore (account s) 30 st" tags "account s"
          "if type s = fan_in then ''fan_in_smurfing'' else ''fan_out_smurfing''"]
  by (auto simp: smurfStep_def Let_def)

lemma smurfPass_score:
  "score_is a st n \<Longrightarrow> score_is a (foldl smurfStep st ss) (n + smurfPoints ss a)"
proof (induction ss arbitrary: st n)
  case Nil
  then show ?case by (simp add: smurfPoints_def)
next
  case (Cons s ss)
  from Cons.IH[OF smurfStep_score[OF Cons.prems, of s]] show ?case
    by (simp add: smurfPoints_def add.assoc)
qed

lemma smurfPass_tags:
  "tags_are a st tags \<Longrightarrow> tags_are a (foldl smurfStep st ss) (tags @ smurfTags ss a)"
proof (induction ss arbitrary: st tags)
  case Nil
  then show ?case by (simp add: smurfTags_def)
next
  case (Cons s ss)
  from Cons.IH[OF smurfStep_tags[OF Cons.prems, of s]] show ?case
    by (simp add: smurfTags_def)
qed

subsection \<open>Shell-chain pass\<close>

lemma shell_interior_score:
  "score_is a st n \<Longrightarrow>
   score_is a (foldl (\<lambda>s x. addPattern x t (addScore x 35 s)) st xs) (n + 35 * count_list xs a)"
proof (induction xs arbitrary: st n)
  case Nil
  then show ?case by simp
next
  case (Cons x xs)
  have "score_is a (addPattern x t (addScore x 35 st)) (if x = a then n + 35 else n)"
    using score_step[OF Cons.prems, of 35 35 x] by simp
  from Cons.IH[OF this] show ?case by (auto simp: algebra_simps)
qed

lemma shell_interior_tags:
  "tags_are a st tags \<Longrightarrow>
   tags_are a (foldl (\<lambda>s x. addPattern x t (addScore x 35 s)) st xs)
     (tags @ (if a \<in> set xs then [t] else []))"
proof (induction xs arbitrary: st tags)
  case Nil
  then show ?case by simp
next
  case (Cons x xs)
  have "tags_are a (addPattern x t (addScore x 35 st)) (if x = a then tags @ [t] else tags)"
    using tags_step[of a "addScore x 35 st" tags x t] Cons.prems by simp
  from Cons.IH[OF this] show ?case
    by (auto elim!: tags_are_cong split: if_splits)
qed

lemma foldl_setRing_fields [simp]:
  "scores (foldl (\<lambda>s m. setRing m r s) st xs) = scores st"
  "patterns (foldl (\<lambda>s m. setRing m r s) st xs) = patterns st"
  "fraudRings (foldl (\<lambda>s m. setRing m r s) st xs) = fraudRings st"
  "ringCounter (foldl (\<lambda>s m. setRing m r s) st xs) = ringCounter st"
  by (induction xs arbitrary: st) simp_all

lemma shellStep_score:
  assumes "score_is a st n"
  shows "score_is a (shellStep st c)
     (n + (35 * count_list (interior c) a + (if hd c = a then 20 else 0) + (if last c = a then 20 else 0)))"
proof -
  define st1 where "st1 = foldl (\<lambda>s a. addPattern a ''shell_intermediary'' (addScore a 35 s)) st (interior c)"
  define st3 where "st3 = addScore (last c) 20 (addScore (hd c) 20 st1)"
  have 1: "score_is a st1 (n + 35 * count_list (interior c) a)"
    unfolding st1_def using assms by (rule shell_interior_score)
  have 2: "score_is a (addScore (hd c) 20 st1)
             (n + 35 * count_list (interior c) a + (if hd c = a then 20 else 0))"
    using score_step[OF 1, of 20 20 "hd c"] by auto
  have 3: "score_is a st3
             (n + 35 * count_list (interior c) a + (if hd c = a then 20 else 0) + (if last c = a then 20 else 0))"
    unfolding st3_def using score_step[OF 2, of 20 20 "last c"] by auto
  have "scores (shellStep st c) = scores st3"
    by (simp add: shellStep_def Let_def st3_def st1_def)
  then show ?thesis using 3 by (simp add: score_is_def add.assoc)
qed

lemma shellStep_tags:
  assumes "tags_are a st tags"
  shows "tags_are a (shellStep st c)
     (tags @ ((if a \<in> set (interior c) then [''shell_intermediary''] else []) @
              (if hd c = a \<or> last c = a then [''shell_chain''] else [])))"
proof -
  define st1 where "st1 = foldl (\<lambda>s a. addPattern a ''shell_intermediary'' (addScore a 35 s)) st (interior c)"
  define st5 where "st5 = addPattern (last c) ''shell_chain'' (addPattern (hd c) ''shell_chain''
                            (addScore (last c) 20 (addScore (hd c) 20 st1)))"
  define t1 where "t1 = tags @ (if a \<in> set (interior c) then [''shell_intermediary''] else [])"
  have 1: "tags_are a st1 t1"
    unfolding st1_def t1_def using assms by (rule shell_interior_tags)
  then have "tags_are a (addScore (last c) 20 (addScore (hd c) 20 st1)) t1" by simp
  from tags_step[OF this, of "hd c" "''shell_chain''"]
  have 2: "tags_are a (addPattern (hd c) ''shell_chain'' (addScore (last c) 20 (addScore (hd c) 20 st1)))
             (if hd c = a then t1 @ [''shell_chain''] else t1)" .
  have 3: "tags_are a st5
     (if last c = a then (if hd c = a then t1 @ [''shell_chain''] else t1) @ [''shell_chain'']
      else (if hd c = a then t1 @ [''shell_chain''] else t1))"
    unfolding st5_def by (rule tags_step[OF 2])
  have "patternsOf (shellStep st c) = patternsOf st5"
    by (simp add: shellStep_def Let_def st5_def st1_def patternsOf_def fun_eq_iff)
  then have "tags_are a (shellStep st c)
     (if last c = a then (if hd c = a then t1 @ [''shell_chain''] else t1) @ [''shell_chain'']
      else (if hd c = a then t1 @ [''shell_chain''] else t1))"
    using 3 by (simp add: tags_are_def)
  then show ?thesis
    by (rule tags_are_cong) (auto simp: t1_def)
qed

lemma shellPass_score:
  "score_is a st n \<Longrightarrow> score_is a (foldl shellStep st cs) (n + shellPoints cs a)"
proof (induction cs arbitrary: st n)
  case Nil
  then show ?case by (simp add: shellPoints_def)
next
  case (Cons c cs)
  from Cons.IH[OF shellStep_score[OF Cons.prems, of c]] show ?case
    by (simp add: shellPoints_def add.assoc)
qed

lemma shellPass_tags:
  "tags_are a st tags \<Longrightarrow> tags_are a (foldl shellStep st cs) (tags @ shellTags cs a)"
proof (induction cs arbitrary: st tags)
  case Nil
  then show ?case by (simp add: shellTags_def)
next
  case (Cons c cs)
  from Cons.IH[OF shellStep_tags[OF Cons.prems, of c]] show ?case
    by (simp add: shellTags_def)
qed

subsection \<open>Bonus and velocity pass\<close>

lemma tags_are_length: "tags_are a st tags \<Longrightarrow> length (patternsOf st a) = card (set tags)"
  by (metis tags_are_def distinct_card)

lemma bonusStep_other:
  assumes "b \<noteq> a"
  shows "score_is a st n \<Longrightarrow> score_is a (bonusStep txs st b) n"
    and "tags_are a st tags \<Longrightarrow> tags_are a (bonusStep txs st b) tags"
  using assms
  by (auto simp: bonusStep_def Let_def score_is_addScore_other tags_are_addPattern_other
           split: option.splits)

lemma bonus_condition:
  "(case map_of (patterns st) a of None \<Rightarrow> st
      | Some patternSet \<Rightarrow> if length patternSet \<ge> 2 then addScore a 15 st else st)
   = (if 2 \<le> length (patternsOf st a) then addScore a 15 st else st)"
  by (simp add: patternsOf_def split: option.splits)

lemma bonusStep_same:
  assumes s: "score_is a st n" and t: "tags_are a st tags"
  shows "score_is a (bonusStep txs st a)
           (n + ((if 2 \<le> card (set tags) then 15 else 0) + (if hasHighVelocity a txs then 10 else 0)))"
    and "tags_are a (bonusStep txs st a) (tags @ (if hasHighVelocity a txs then [''high_velocity''] else []))"
proof -
  define st1 where "st1 = (if 2 \<le> length (patternsOf st a) then addScore a 15 st else st)"
  have b: "bonusStep txs st a =
     (if hasHighVelocity a txs then addPattern a ''high_velocity'' (addScore a 10 st1) else st1)"
    by (simp add: bonusStep_def bonus_condition st1_def Let_def)
  have 1: "score_is a st1 (n + (if 2 \<le> card (set tags) then 15 else 0))"
    unfolding st1_def using score_step[OF s, of 15 15 a] s tags_are_length[OF t] by auto
  have t1: "tags_are a st1 tags" unfolding st1_def using t by simp
  show "score_is a (bonusStep txs st a)
           (n + ((if 2 \<le> card (set tags) then 15 else 0) + (if hasHighVelocity a txs then 10 else 0)))"
    unfolding b using score_step[OF 1, of 10 10 a] 1 by (auto simp: add.assoc)
  show "tags_are a (bonusStep txs st a) (tags @ (if hasHighVelocity a txs then [''high_velocity''] else []))"
    unfolding b using tags_step[of a "addScore a 10 st1" tags a "''high_velocity''"] t1 by auto
qed

lemma bonusPass_absent:
  "a \<notin> set ids \<Longrightarrow> score_is a st n \<Longrightarrow> tags_are a st tags \<Longrightarrow>
   score_is a (foldl (bonusStep txs) st ids) n \<and> tags_are a (foldl (bonusStep txs) st ids) tags"
  by (induction ids arbitrary: st) (auto simp: bonusStep_other)

lemma bonusPass_present:
  "a \<in> set ids \<Longrightarrow> distinct ids \<Longrightarrow> score_is a st n \<Longrightarrow> tags_are a st tags \<Longrightarrow>
   score_is a (foldl (bonusStep txs) st ids)
     (n + ((if 2 \<le> card (set tags) then 15 else 0) + (if hasHighVelocity a txs then 10 else 0))) \<and>
   tags_are a (foldl (bonusStep txs) st ids)
     (tags @ (if hasHighVelocity a txs then [''high_velocity''] else []))"
proof (induction ids arbitrary: st)
  case Nil
  then show ?case by simp
next
  case (Cons b ids)
  show ?case
  proof (cases "b = a")
    case True
    then have "a \<notin> set ids" using Cons.prems by simp
    from bonusPass_absent[OF this bonusStep_same[OF Cons.prems(3,4)]] show ?thesis
      using True by simp
  next
    case False
    then have "a \<in> set ids" "distinct ids" using Cons.prems by auto
    from Cons.IH[OF this bonusStep_other(1)[OF False Cons.prems(3)] bonusStep_other(2)[OF False Cons.prems(4)]]
    show ?thesis by simp
  qed
qed

subsection \<open>Accounts of the graph\<close>

lemma keys_map_entry: "map fst (AList.map_entry k f xs) = map fst xs"
  by (induction xs) auto

lemma keys_getOrCreate:
  "map fst (getOrCreate nodes i) = (if i \<in> set (map fst nodes) then map fst nodes else map fst nodes @ [i])"
proof (cases "map_of nodes i")
  case None
  then have "i \<notin> fst ` set nodes" by (simp add: map_of_eq_None_iff)
  then show ?thesis unfolding getOrCreate_def None by simp
next
  case (Some n)
  then have "i \<in> fst ` set nodes" by (metis map_of_eq_None_iff option.distinct(1))
  then show ?thesis unfolding getOrCreate_def Some by simp
qed

lemma keys_addTransaction:
  "map fst (addTransaction nodes tx) = map fst (getOrCreate (getOrCreate nodes (sender_id tx)) (receiver_id tx))"
  by (simp add: addTransaction_def Let_def keys_map_entry)

lemma addTransaction_distinct:
  "distinct (map fst nodes) \<Longrightarrow> distinct (map fst (addTransaction nodes tx))"
  by (auto simp: keys_addTransaction keys_getOrCreate)

lemma addTransaction_keys:
  "fst ` set (addTransaction nodes tx) = fst ` set nodes \<union> {sender_id tx, receiver_id tx}"
proof -
  have "set (map fst (addTransaction nodes tx)) = set (map fst nodes) \<union> {sender_id tx, receiver_id tx}"
    unfolding keys_addTransaction keys_getOrCreate by auto
  then show ?thesis by simp
qed

lemma foldl_addTransaction_distinct:
  "distinct (map fst nodes) \<Longrightarrow> distinct (map fst (foldl addTransaction nodes txs))"
  by (induction txs arbitrary: nodes) (simp_all add: addTransaction_distinct)

lemma foldl_addTransaction_keys:
  "fst ` set (foldl addTransaction nodes txs) = fst ` set nodes \<union> accounts txs"
proof (induction txs arbitrary: nodes)
  case Nil
  then show ?case by (simp add: accounts_def)
next
  case (Cons tx txs)
  have "accounts (tx # txs) = {sender_id tx, receiver_id tx} \<union> accounts txs"
    by (auto simp: accounts_def)
  then show ?case by (simp add: Cons.IH addTransaction_keys Un_assoc)
qed

lemma buildGraph_keys:
  "distinct (map fst (buildGraph txs))"
  "fst ` set (buildGraph txs) = accounts txs"
  by (simp_all add: buildGraph_def foldl_addTransaction_distinct foldl_addTransaction_keys)

subsection \<open>The accumulated state\<close>

lemma initial_tracked: "score_is a initial_state 0" "tags_are a initial_state []"
  by (simp_all add: score_is_def tags_are_def initial_state_def patternsOf_def)

lemma accumulate_tracked:
  "score_is a (accumulate txs) (totalPoints txs a)"
  "tags_are a (accumulate txs) (finalTags txs a)"
proof -
  let ?g = "buildGraph txs"
  define st3 where "st3 = foldl shellStep (foldl smurfStep (foldl cycleStep initial_state (detectCycles ?g))
                            (detectSmurfing txs)) (detectShellNetworks ?g)"
  define n3 where "n3 = cyclePoints (detectCycles ?g) a + smurfPoints (detectSmurfing txs) a +
                        shellPoints (detectShellNetworks ?g) a"
  have acc: "accumulate txs = foldl (bonusStep txs) st3 (map fst ?g)"
    by (simp add: accumulate_def Let_def st3_def)
  have s3: "score_is a st3 n3"
    unfolding st3_def n3_def
    using shellPass_score[OF smurfPass_score[OF cyclePass_score[OF initial_tracked(1)]]] by simp
  have t3: "tags_are a st3 (detectorTags txs a)"
    unfolding st3_def detectorTags_def
    using shellPass_tags[OF smurfPass_tags[OF cyclePass_tags[OF initial_tracked(2)]]] by simp
  have "score_is a (accumulate txs) (totalPoints txs a) \<and> tags_are a (accumulate txs) (finalTags txs a)"
  proof (cases "a \<in> accounts txs")
    case True
    then have "a \<in> set (map fst ?g)" using buildGraph_keys(2)[of txs] by simp
    from bonusPass_present[OF this buildGraph_keys(1) s3 t3, of txs] show ?thesis
      using True by (simp add: acc totalPoints_def bonusPoints_def finalTags_def n3_def)
  next
    case False
    then have "a \<notin> set (map fst ?g)" using buildGraph_keys(2)[of txs] by simp
    from bonusPass_absent[OF this s3 t3, of txs] show ?thesis
      using False by (simp add: acc totalPoints_def bonusPoints_def finalTags_def n3_def)
  qed
  then show "score_is a (accumulate txs) (totalPoints txs a)"
    "tags_are a (accumulate txs) (finalTags txs a)" by simp_all
qed

subsection \<open>Invariants kept by every accumulator operation\<close>

lemma accumulate_invariant:
  assumes init: "P initial_state"
    and sc: "\<And>a p st. P st \<Longrightarrow> P (addScore a p st)"
    and pa: "\<And>a p st. P st \<Longrightarrow> P (addPattern a p st)"
    and sr: "\<And>a r st. P st \<Longrightarrow> P (setRing a r st)"
    and pr: "\<And>ring st. P st \<Longrightarrow> P (pushRing ring st)"
    and nc: "\<And>st. P st \<Longrightarrow> P (nextCounter st)"
  shows "P (accumulate txs)"
proof -
  have c: "P (cycleStep st c)" if "P st" for st c
    unfolding cycleStep_def Let_def
    by (intro pr foldl_invariant[where P=P] sr pa sc nc that)
  have s: "P (smurfStep st x)" if "P st" for st x
    unfolding smurfStep_def Let_def
    by (auto intro!: pr sr pa sc nc that)
  have h: "P (shellStep st c)" if "P st" for st c
    unfolding shellStep_def Let_def
    by (auto intro!: pr foldl_invariant[where P=P] sr pa sc nc that)
  have b: "P (bonusStep txs st a)" if "P st" for st a
    unfolding bonusStep_def Let_def
    by (auto intro!: pa sc that split: option.splits)
  show ?thesis
    unfolding accumulate_def Let_def
    by (intro foldl_invariant[where P=P] init c s h b)
qed

lemma scores_distinct: "distinct (map fst (scores (accumulate txs)))"
  by (rule accumulate_invariant[where P="\<lambda>st. distinct (map fst (scores st))"])
     (simp_all add: initial_state_def addScore_def distinct_update)

lemma set_update_subset: "set (AList.update k v al) \<subseteq> insert (k, v) (set al)"
  by (induction al) auto

lemma scores_bounded: "(a, v) \<in> set (scores (accumulate txs)) \<Longrightarrow> v \<le> 100"
proof -
  have "\<forall>e \<in> set (scores (accumulate txs)). snd e \<le> 100"
  proof (rule accumulate_invariant[where P="\<lambda>st. \<forall>e \<in> set (scores st). snd e \<le> 100"])
    fix a p and st :: engine_state
    assume "\<forall>e \<in> set (scores st). snd e \<le> 100"
    then show "\<forall>e \<in> set (scores (addScore a p st)). snd e \<le> 100"
      using set_update_subset[of a _ "scores st"] by (fastforce simp: addScore_def)
  qed (simp_all add: initial_state_def)
  then show "(a, v) \<in> set (scores (accumulate txs)) \<Longrightarrow> v \<le> 100" by fastforce
qed

subsection \<open>The emitted list\<close>

lemma suspicious_accounts_runDetection:
  "suspicious_accounts (runDetection txs) = suspiciousOf (buildGraph txs) txs (accumulate txs)"
  by (simp add: runDetection_def Let_def)

lemma emitted_iff:
  "sa \<in> set (suspicious_accounts (runDetection txs)) \<longleftrightarrow>
     (\<exists>a s. map_of (scores (accumulate txs)) a = Some s \<and> 0 < s \<and>
        \<not> (\<not> hasMaliciousPattern (patternsOf (accumulate txs) a) \<and> isMerchantLike a (buildGraph txs) txs) \<and>
        sa = \<lparr>account_id = a, suspicion_score = js_round (s * 10) / 10,
               detected_patterns = patternsOf (accumulate txs) a, sa_ring_id = ringOf (accumulate txs) a\<rparr>)"
proof -
  let ?st = "accumulate txs"
  have d: "distinct (map fst (scores ?st))" by (rule scores_distinct)
  have "sa \<in> set (suspicious_accounts (runDetection txs)) \<longleftrightarrow>
        (\<exists>e \<in> set (scores ?st). sa \<in> set (emitAccount (buildGraph txs) txs ?st e))"
    by (simp add: suspicious_accounts_runDetection suspiciousOf_def)
  also have "\<dots> \<longleftrightarrow> (\<exists>a s. (a, s) \<in> set (scores ?st) \<and> sa \<in> set (emitAccount (buildGraph txs) txs ?st (a, s)))"
    by auto
  also have "\<dots> \<longleftrightarrow> (\<exists>a s. map_of (scores ?st) a = Some s \<and> sa \<in> set (emitAccount (buildGraph txs) txs ?st (a, s)))"
    using d by simp
  also have "\<dots> \<longleftrightarrow> (\<exists>a s. map_of (scores ?st) a = Some s \<and> 0 < s \<and>
        \<not> (\<not> hasMaliciousPattern (patternsOf ?st a) \<and> isMerchantLike a (buildGraph txs) txs) \<and>
        sa = \<lparr>account_id = a, suspicion_score = js_round (s * 10) / 10,
               detected_patterns = patternsOf ?st a, sa_ring_id = ringOf ?st a\<rparr>)"
    by (auto simp: emitAccount_def not_le)
  finally show ?thesis .
qed

lemma js_round_of_nat: "js_round (of_nat k) = of_nat k"
proof -
  have "\<lfloor>(of_nat k :: rat) + 1 / 2\<rfloor> = int k"
    by (simp add: floor_eq_iff)
  then show ?thesis by (simp add: js_round_def)
qed

lemma round_capped: "js_round (min 100 (of_nat n) * 10) / 10 = (min 100 (of_nat n) :: rat)"
proof -
  have "(min 100 (of_nat n) :: rat) * 10 = of_nat (min 100 n * 10)"
    by (simp add: min_def)
  then show ?thesis by (simp only: js_round_of_nat)
qed

text \<open>
  C5. The score of every emitted account is the sum of the points awarded to it
  (\<open>totalPoints\<close>: 45 per cycle membership, 30 per smurfing flag, 35 per chain interior,
  20 per chain end, 15 bonus, 10 velocity), clamped to the interval from 0 to 100 and
  rounded to one decimal place; the rounding changes nothing, the sum is positive, and
  the score lies between 0 and 100.
\<close>

theorem C5_score_is_clamped_sum:
  "\<forall>sa \<in> set (suspicious_accounts (runDetection txs)).
     suspicion_score sa = js_round (min 100 (max 0 (of_nat (totalPoints txs (account_id sa)))) * 10) / 10 \<and>
     suspicion_score sa = min 100 (max 0 (of_nat (totalPoints txs (account_id sa)))) \<and>
     0 < totalPoints txs (account_id sa) \<and>
     0 \<le> suspicion_score sa \<and> suspicion_score sa \<le> 100"
proof
  fix sa
  assume "sa \<in> set (suspicious_accounts (runDetection txs))"
  then obtain a s where s: "map_of (scores (accumulate txs)) a = Some s" "0 < s"
    and sa: "account_id sa = a" "suspicion_score sa = js_round (s * 10) / 10"
    unfolding emitted_iff by auto
  let ?n = "totalPoints txs a"
  have "score_is a (accumulate txs) ?n" by (rule accumulate_tracked)
  then have n: "?n \<noteq> 0" and v: "s = min 100 (of_nat ?n)"
    using s by (auto simp: score_is_def split: if_splits)
  have m: "max 0 (of_nat ?n) = (of_nat ?n :: rat)" by simp
  have r: "suspicion_score sa = min 100 (of_nat ?n)"
    unfolding sa(2) v by (rule round_capped)
  show "suspicion_score sa = js_round (min 100 (max 0 (of_nat (totalPoints txs (account_id sa)))) * 10) / 10 \<and>
     suspicion_score sa = min 100 (max 0 (of_nat (totalPoints txs (account_id sa)))) \<and>
     0 < totalPoints txs (account_id sa) \<and>
     0 \<le> suspicion_score sa \<and> suspicion_score sa \<le> 100"
    unfolding sa(1) m using r n by (simp add: round_capped)
qed

theorem C5_witness:
  "suspicion_score (hd (suspicious_accounts (runDetection two_cycles_input))) = 100 \<and>
   account_id (hd (suspicious_accounts (runDetection two_cycles_input))) = ''A'' \<and>
   100 < totalPoints two_cycles_input ''A''"
proof -
  have e: "map account_id (suspicious_accounts (runDetection two_cycles_input)) = [''A'', ''C'', ''E'', ''B'', ''D'']"
    by code_simp
  have t: "totalPoints two_cycles_input ''A'' = 145"
    by code_simp
  have a: "account_id (hd (suspicious_accounts (runDetection two_cycles_input))) = ''A''"
    using e by (cases "suspicious_accounts (runDetection two_cycles_input)") auto
  have "hd (suspicious_accounts (runDetection two_cycles_input)) \<in> set (suspicious_accounts (runDetection two_cycles_input))"
    using e by (cases "suspicious_accounts (runDetection two_cycles_input)") auto
  with C5_score_is_clamped_sum[of two_cycles_input]
  have "suspicion_score (hd (suspicious_accounts (runDetection two_cycles_input))) =
          min 100 (max 0 (of_nat (totalPoints two_cycles_input
             (account_id (hd (suspicious_accounts (runDetection two_cycles_input)))))))"
    by blast
  then show ?thesis unfolding a t using a by simp
qed

section \<open>Ring assignment\<close>

lemma digit_val: "d < 10 \<Longrightarrow> of_char (digit_char d) - 48 = d"
  by (simp add: digit_char_def)

lemma decimal_val_snoc: "decimal_val (s @ [c]) = 10 * decimal_val s + (of_char c - 48)"
  by (simp add: decimal_val_def)

lemma decimal_val_decimal: "decimal_val (decimal n) = n"
proof (induction n rule: decimal.induct)
  case (1 n)
  show ?case
  proof (cases "n < 10")
    case True
    then show ?thesis by (simp add: decimal.simps[of n] decimal_val_def digit_val)
  next
    case False
    then show ?thesis using 1 by (simp add: decimal.simps[of n] decimal_val_snoc digit_val)
  qed
qed

lemma decimal_val_zeros: "decimal_val (replicate k (CHR ''0'') @ s) = decimal_val s"
proof -
  have "foldl (\<lambda>n c. 10 * n + (of_char c - 48)) 0 (replicate k (CHR ''0'')) = (0::nat)"
    by (induction k) simp_all
  then show ?thesis by (simp add: decimal_val_def)
qed

lemma ringIdOf_inj: "ringIdOf j = ringIdOf k \<Longrightarrow> j = k"
proof -
  assume "ringIdOf j = ringIdOf k"
  then have "padStart 3 (CHR ''0'') (decimal j) = padStart 3 (CHR ''0'') (decimal k)"
    by (simp add: ringIdOf_def)
  then have "decimal_val (padStart 3 (CHR ''0'') (decimal j)) = decimal_val (padStart 3 (CHR ''0'') (decimal k))"
    by simp
  then show "j = k" by (simp add: padStart_def decimal_val_zeros decimal_val_decimal)
qed

lemma ringIdOf_nonempty: "ringIdOf k \<noteq> []"
  by (simp add: ringIdOf_def)

lemma lastAssigned_snoc:
  "lastAssigned (rings @ [r]) a = (if assigns r a then Some (ring_id r) else lastAssigned rings a)"
  by (simp add: lastAssigned_def)

lemma lastAssigned_Nil [simp]: "lastAssigned [] a = None"
  by (simp add: lastAssigned_def)

lemma lastAssigned_in:
  "lastAssigned rings a = Some r \<Longrightarrow> \<exists>ring \<in> set rings. ring_id ring = r \<and> assigns ring a"
  by (induction rings rule: rev_induct) (auto simp: lastAssigned_snoc split: if_splits)

lemma assigns_member: "assigns ring a \<Longrightarrow> a \<in> set (member_accounts ring)"
  by (cases "member_accounts ring") (auto simp: assigns_def split: if_splits)

lemma uniq_aux:
  "set (foldl (\<lambda>s x. if x \<in> set s then s else s @ [x]) acc xs) = set acc \<union> set xs \<and>
   (distinct acc \<longrightarrow> distinct (foldl (\<lambda>s x. if x \<in> set s then s else s @ [x]) acc xs))"
  by (induction xs arbitrary: acc) auto

lemma set_uniq [simp]: "set (uniq xs) = set xs"
  using uniq_aux[of "[]" xs] by (simp add: uniq_def)


lemma ring_push:
  assumes inv: "ring_inv st"
    and rm: "\<forall>a. map_of (ringMembership st') a = (if assigns ring a then Some (ring_id ring) else map_of (ringMembership st) a)"
    and fr: "fraudRings st' = fraudRings st @ [ring]"
    and rc: "ringCounter st' = ringCounter st + 1"
    and id: "ring_id ring = ringIdOf (ringCounter st)"
    and ne: "member_accounts ring \<noteq> []"
    and gd: "pattern_type ring \<noteq> ''cycle'' \<longrightarrow> map_of (ringMembership st) (hd (member_accounts ring)) = None"
  shows "ring_inv st'"
proof -
  let ?rs = "fraudRings st"
  have 1: "\<forall>a. map_of (ringMembership st') a = lastAssigned (fraudRings st') a"
    using inv rm by (simp add: ring_inv_def fr lastAssigned_snoc)
  have c: "1 \<le> ringCounter st" using inv by (simp add: ring_inv_def)
  then have "[1..<ringCounter st + 1] = [1..<ringCounter st] @ [ringCounter st]"
    by simp
  then have 2: "map ring_id (fraudRings st') = map ringIdOf [1..<ringCounter st']"
    using inv by (simp add: ring_inv_def fr rc id)
  have 4: "pattern_type (fraudRings st' ! i) \<noteq> ''cycle'' \<longrightarrow>
        member_accounts (fraudRings st' ! i) \<noteq> [] \<and>
        lastAssigned (take i (fraudRings st')) (hd (member_accounts (fraudRings st' ! i))) = None"
    if "i < length (fraudRings st')" for i
  proof (cases "i < length ?rs")
    case True
    then show ?thesis using inv by (simp add: ring_inv_def fr nth_append)
  next
    case False
    then have i: "i = length ?rs" using that by (simp add: fr)
    have "lastAssigned ?rs (hd (member_accounts ring)) = map_of (ringMembership st) (hd (member_accounts ring))"
      using inv by (simp add: ring_inv_def)
    then show ?thesis using gd ne by (simp add: i fr)
  qed
  have 5: "\<forall>r \<in> set (fraudRings st'). member_accounts r \<noteq> []"
    using inv ne by (auto simp: ring_inv_def fr)
  show ?thesis
    unfolding ring_inv_def using 1 2 c 4 5 by (simp add: rc)
qed

lemma ring_inv_same:
  "ring_inv st \<Longrightarrow> ringMembership st' = ringMembership st \<Longrightarrow> fraudRings st' = fraudRings st \<Longrightarrow>
   ringCounter st' = ringCounter st \<Longrightarrow> ring_inv st'"
  by (simp add: ring_inv_def)

lemma cycle_members_ring:
  "map_of (ringMembership (foldl (\<lambda>s x. setRing x r (addPattern x t (addScore x 45 s))) st c)) a =
     (if a \<in> set c then Some r else map_of (ringMembership st) a)"
  by (induction c arbitrary: st) (auto simp: update_conv')

lemma cycle_members_fields [simp]:
  "fraudRings (foldl (\<lambda>s x. setRing x r (addPattern x t (addScore x 45 s))) st c) = fraudRings st"
  "ringCounter (foldl (\<lambda>s x. setRing x r (addPattern x t (addScore x 45 s))) st c) = ringCounter st"
  by (induction c arbitrary: st) auto

lemma shell_interior_fields [simp]:
  "fraudRings (foldl (\<lambda>s x. addPattern x t (addScore x 35 s)) st xs) = fraudRings st"
  "ringCounter (foldl (\<lambda>s x. addPattern x t (addScore x 35 s)) st xs) = ringCounter st"
  "ringMembership (foldl (\<lambda>s x. addPattern x t (addScore x 35 s)) st xs) = ringMembership st"
  by (induction xs arbitrary: st) auto

lemma foldl_setRing_map:
  "map_of (ringMembership (foldl (\<lambda>s m. setRing m r s) st xs)) a =
     (if a \<in> set xs then Some r else map_of (ringMembership st) a)"
  by (induction xs arbitrary: st) (auto simp: update_conv')

lemma cycleStep_ring_inv:
  assumes "ring_inv st" and "c \<noteq> []"
  shows "ring_inv (cycleStep st c)"
proof (rule ring_push[OF assms(1), where ring = "\<lparr>ring_id = ringIdOf (ringCounter st), member_accounts = uniq c,
         pattern_type = ''cycle'', risk_score = min 100 (45 + (if length c \<ge> 4 then 15 else 0))\<rparr>"])
  show "\<forall>a. map_of (ringMembership (cycleStep st c)) a =
      (if assigns \<lparr>ring_id = ringIdOf (ringCounter st), member_accounts = uniq c,
         pattern_type = ''cycle'', risk_score = min 100 (45 + (if length c \<ge> 4 then 15 else 0))\<rparr> a
       then Some (ring_id \<lparr>ring_id = ringIdOf (ringCounter st), member_accounts = uniq c,
         pattern_type = ''cycle'', risk_score = min 100 (45 + (if length c \<ge> 4 then 15 else 0))\<rparr>)
       else map_of (ringMembership st) a)"
    by (simp add: cycleStep_def Let_def cycle_members_ring assigns_def)
  show "member_accounts \<lparr>ring_id = ringIdOf (ringCounter st), member_accounts = uniq c,
         pattern_type = ''cycle'', risk_score = min 100 (45 + (if length c \<ge> 4 then 15 else 0))\<rparr> \<noteq> []"
    using assms(2) set_uniq[of c] by (cases "uniq c") auto
qed (simp_all add: cycleStep_def Let_def)

lemma lastAssigned_nonempty:
  assumes "ring_inv st" and "map_of (ringMembership st) a = Some r"
  shows "r \<noteq> []"
proof -
  have "lastAssigned (fraudRings st) a = Some r" using assms by (simp add: ring_inv_def)
  then obtain ring where "ring \<in> set (fraudRings st)" "ring_id ring = r"
    using lastAssigned_in by blast
  then have "r \<in> set (map ring_id (fraudRings st))" by auto
  moreover have "map ring_id (fraudRings st) = map ringIdOf [1..<ringCounter st]"
    using assms(1) unfolding ring_inv_def by blast
  ultimately have "r \<in> set (map ringIdOf [1..<ringCounter st])" by simp
  then show ?thesis using ringIdOf_nonempty by auto
qed

lemma noRingId_iff:
  "ring_inv st \<Longrightarrow> noRingId (map_of (ringMembership st) a) \<longleftrightarrow> map_of (ringMembership st) a = None"
  using lastAssigned_nonempty[of st a] by (auto simp: noRingId_def split: option.splits)

lemma smurfStep_ring_inv:
  assumes "ring_inv st"
  shows "ring_inv (smurfStep st s)"
proof (cases "map_of (ringMembership st) (account s) = None")
  case False
  then have "\<not> noRingId (map_of (ringMembership st) (account s))"
    using noRingId_iff[OF assms] by simp
  then show ?thesis
    by (intro ring_inv_same[OF assms]) (simp_all add: smurfStep_def Let_def)
next
  case True
  then have n: "noRingId (map_of (ringMembership st) (account s))" by (simp add: noRingId_def)
  let ?ring = "\<lparr>ring_id = ringIdOf (ringCounter st),
                 member_accounts = account s # slice (counterparties s) 0 20,
                 pattern_type = (if type s = fan_in then ''smurfing_fan_in'' else ''smurfing_fan_out''),
                 risk_score = min 100 (30 + of_nat (length (counterparties s)) * (3 / 2))\<rparr>"
  show ?thesis
  proof (rule ring_push[OF assms, where ring = ?ring])
    show "\<forall>a. map_of (ringMembership (smurfStep st s)) a =
        (if assigns ?ring a then Some (ring_id ?ring) else map_of (ringMembership st) a)"
      using n by (auto simp: smurfStep_def Let_def assigns_def update_conv')
    show "pattern_type ?ring \<noteq> ''cycle'' \<longrightarrow> map_of (ringMembership st) (hd (member_accounts ?ring)) = None"
      using True by simp
  qed (use n in \<open>simp_all add: smurfStep_def Let_def\<close>)
qed

lemma shellStep_ring_inv:
  assumes "ring_inv st" and "c \<noteq> []"
  shows "ring_inv (shellStep st c)"
proof (cases "map_of (ringMembership st) (hd c) = None")
  case False
  then show ?thesis
    by (intro ring_inv_same[OF assms(1)]) (auto simp: shellStep_def Let_def)
next
  case True
  let ?ring = "\<lparr>ring_id = ringIdOf (ringCounter st), member_accounts = c,
                 pattern_type = ''shell_chain'', risk_score = min 100 (35 + of_nat (length c) * 5)\<rparr>"
  show ?thesis
  proof (rule ring_push[OF assms(1), where ring = ?ring])
    show "\<forall>a. map_of (ringMembership (shellStep st c)) a =
        (if assigns ?ring a then Some (ring_id ?ring) else map_of (ringMembership st) a)"
      using True by (simp add: shellStep_def Let_def assigns_def foldl_setRing_map)
    show "pattern_type ?ring \<noteq> ''cycle'' \<longrightarrow> map_of (ringMembership st) (hd (member_accounts ?ring)) = None"
      using True by simp
  qed (use True assms(2) in \<open>simp_all add: shellStep_def Let_def\<close>)
qed

lemma bonusStep_ring_inv:
  assumes "ring_inv st"
  shows "ring_inv (bonusStep txs st a)"
  by (rule ring_inv_same[OF assms]) (simp_all add: bonusStep_def Let_def split: option.splits)

lemma foldl_invariant_on:
  "P s \<Longrightarrow> (\<And>s x. P s \<Longrightarrow> x \<in> set xs \<Longrightarrow> P (f s x)) \<Longrightarrow> P (foldl f s xs)"
  by (induction xs arbitrary: s) simp_all

lemma ring_inv_initial: "ring_inv initial_state"
  by (simp add: ring_inv_def initial_state_def)

lemma ring_inv_accumulate: "ring_inv (accumulate txs)"
proof -
  let ?g = "buildGraph txs"
  have 1: "ring_inv (foldl cycleStep initial_state (detectCycles ?g))"
  proof (rule foldl_invariant_on[where P = ring_inv, OF ring_inv_initial])
    fix s c assume s: "ring_inv s" and c: "c \<in> set (detectCycles ?g)"
    from c have "c \<noteq> []" using detectCycles_inv[of ?g] by auto
    with s show "ring_inv (cycleStep s c)" by (rule cycleStep_ring_inv)
  qed
  have 2: "ring_inv (foldl smurfStep (foldl cycleStep initial_state (detectCycles ?g)) (detectSmurfing txs))"
    by (rule foldl_invariant[where P = ring_inv, OF 1]) (rule smurfStep_ring_inv)
  have 3: "ring_inv (foldl shellStep (foldl smurfStep (foldl cycleStep initial_state (detectCycles ?g))
              (detectSmurfing txs)) (detectShellNetworks ?g))"
  proof (rule foldl_invariant_on[where P = ring_inv, OF 2])
    fix s c assume s: "ring_inv s" and c: "c \<in> set (detectShellNetworks ?g)"
    from c have "c \<noteq> []" using detectShellNetworks_inv[of c ?g] by auto
    with s show "ring_inv (shellStep s c)" by (rule shellStep_ring_inv)
  qed
  show ?thesis
    unfolding accumulate_def Let_def
    by (rule foldl_invariant[where P = ring_inv, OF 3]) (rule bonusStep_ring_inv)
qed

lemma updateRisk_fields [simp]:
  "ring_id (updateRisk accts ring) = ring_id ring"
  "member_accounts (updateRisk accts ring) = member_accounts ring"
  "pattern_type (updateRisk accts ring) = pattern_type ring"
  by (simp_all add: updateRisk_def Let_def)

lemma assigns_updateRisk [simp]: "assigns (updateRisk accts ring) = assigns ring"
  by (simp add: assigns_def fun_eq_iff)

lemma lastAssigned_updateRisk [simp]:
  "lastAssigned (map (updateRisk accts) rings) a = lastAssigned rings a"
  by (induction rings rule: rev_induct) (simp_all add: lastAssigned_snoc)

lemma fraud_rings_runDetection:
  "fraud_rings (runDetection txs) =
     map (updateRisk (suspicious_accounts (runDetection txs))) (fraudRings (accumulate txs))"
  by (simp add: runDetection_def Let_def)

lemma ringOf_lastAssigned: "ringOf (accumulate txs) a = lastAssigned (fraudRings (accumulate txs)) a"
proof -
  have i: "ring_inv (accumulate txs)" by (rule ring_inv_accumulate)
  then have e: "map_of (ringMembership (accumulate txs)) a = lastAssigned (fraudRings (accumulate txs)) a"
    by (simp add: ring_inv_def)
  show ?thesis
    using lastAssigned_nonempty[OF i, of a] e by (auto simp: ringOf_def split: option.splits)
qed

lemma ring_ids_distinct: "distinct (map ring_id (fraud_rings (runDetection txs)))"
proof -
  have "ring_inv (accumulate txs)" by (rule ring_inv_accumulate)
  then have "map ring_id (fraudRings (accumulate txs)) = map ringIdOf [1..<ringCounter (accumulate txs)]"
    unfolding ring_inv_def by blast
  moreover have "distinct (map ringIdOf [1..<ringCounter (accumulate txs)])"
    by (simp add: distinct_map inj_on_def) (use ringIdOf_inj in blast)
  ultimately show ?thesis
    by (simp add: fraud_rings_runDetection comp_def)
qed

text \<open>
  C1, as the code has it. In the final output the ring id of every account is the id of
  the last created ring that assigns it, where a cycle ring and a shell-chain ring
  assign every one of their members and a smurfing ring assigns only its flagged
  account; and a smurfing ring or a shell-chain ring is created only when its first
  member (the flagged account, the first account of the chain) is assigned by no earlier
  ring. So no smurfing flag ever changes a ring id, while a later cycle ring or
  shell-chain ring that contains an account replaces its ring id.
\<close>

theorem C1_last_assigning_ring:
  "(\<forall>sa \<in> set (suspicious_accounts (runDetection txs)).
      sa_ring_id sa = lastAssigned (fraud_rings (runDetection txs)) (account_id sa)) \<and>
   (\<forall>i < length (fraud_rings (runDetection txs)).
      pattern_type (fraud_rings (runDetection txs) ! i) \<noteq> ''cycle'' \<longrightarrow>
        member_accounts (fraud_rings (runDetection txs) ! i) \<noteq> [] \<and>
        lastAssigned (take i (fraud_rings (runDetection txs)))
          (hd (member_accounts (fraud_rings (runDetection txs) ! i))) = None)"
proof (intro conjI ballI allI impI)
  fix sa assume "sa \<in> set (suspicious_accounts (runDetection txs))"
  then have "sa_ring_id sa = ringOf (accumulate txs) (account_id sa)"
    unfolding emitted_iff by auto
  then show "sa_ring_id sa = lastAssigned (fraud_rings (runDetection txs)) (account_id sa)"
    by (simp add: ringOf_lastAssigned fraud_rings_runDetection)
next
  fix i
  assume i: "i < length (fraud_rings (runDetection txs))"
    and p: "pattern_type (fraud_rings (runDetection txs) ! i) \<noteq> ''cycle''"
  let ?rs = "fraudRings (accumulate txs)"
  have l: "i < length ?rs" using i by (simp add: fraud_rings_runDetection)
  have "ring_inv (accumulate txs)" by (rule ring_inv_accumulate)
  then have g: "pattern_type (?rs ! i) \<noteq> ''cycle'' \<longrightarrow> member_accounts (?rs ! i) \<noteq> [] \<and>
        lastAssigned (take i ?rs) (hd (member_accounts (?rs ! i))) = None"
    unfolding ring_inv_def using l by blast
  have "pattern_type (?rs ! i) \<noteq> ''cycle''"
    using p l by (simp add: fraud_rings_runDetection)
  with g have "member_accounts (?rs ! i) \<noteq> [] \<and>
        lastAssigned (take i ?rs) (hd (member_accounts (?rs ! i))) = None" by blast
  then show "member_accounts (fraud_rings (runDetection txs) ! i) \<noteq> []"
    and "lastAssigned (take i (fraud_rings (runDetection txs)))
          (hd (member_accounts (fraud_rings (runDetection txs) ! i))) = None"
    using l by (simp_all add: fraud_rings_runDetection take_map)
qed

theorem C1_witness:
  "sa_ring_id (hd (suspicious_accounts (runDetection shared_account_input))) =
     lastAssigned (fraud_rings (runDetection shared_account_input))
       (account_id (hd (suspicious_accounts (runDetection shared_account_input)))) \<and>
   sa_ring_id (hd (suspicious_accounts (runDetection shared_account_input))) = Some ''RING_002'' \<and>
   member_accounts (fraud_rings (runDetection cycle_then_chain_input) ! 1) = [''X'', ''Y'', ''A''] \<and>
   lastAssigned (take 1 (fraud_rings (runDetection cycle_then_chain_input)))
     (hd (member_accounts (fraud_rings (runDetection cycle_then_chain_input) ! 1))) = None"
proof -
  have e: "map account_id (suspicious_accounts (runDetection shared_account_input)) = [''A'', ''B'', ''C'', ''D'', ''E'']"
    by code_simp
  have h: "hd (suspicious_accounts (runDetection shared_account_input)) \<in>
           set (suspicious_accounts (runDetection shared_account_input))"
    using e by (cases "suspicious_accounts (runDetection shared_account_input)") auto
  have r: "sa_ring_id (hd (suspicious_accounts (runDetection shared_account_input))) = Some ''RING_002''"
    by code_simp
  have l: "1 < length (fraud_rings (runDetection cycle_then_chain_input))"
    by code_simp
  have p: "pattern_type (fraud_rings (runDetection cycle_then_chain_input) ! 1) \<noteq> ''cycle''"
    by code_simp
  have m: "member_accounts (fraud_rings (runDetection cycle_then_chain_input) ! 1) = [''X'', ''Y'', ''A'']"
    by code_simp
  from C1_last_assigning_ring[of shared_account_input] h
  have 1: "sa_ring_id (hd (suspicious_accounts (runDetection shared_account_input))) =
     lastAssigned (fraud_rings (runDetection shared_account_input))
       (account_id (hd (suspicious_accounts (runDetection shared_account_input))))"
    by blast
  from C1_last_assigning_ring[of cycle_then_chain_input] l p
  have 2: "lastAssigned (take 1 (fraud_rings (runDetection cycle_then_chain_input)))
     (hd (member_accounts (fraud_rings (runDetection cycle_then_chain_input) ! 1))) = None"
    by blast
  show ?thesis using 1 2 r m by simp
qed

text \<open>
  C1 as stated fails. \<open>A\<close> lies on two cycles: its ring id is the id of the second cycle
  ring, not of the first ring that contains it. And \<open>A\<close> lies on a cycle and on the
  chain \<open>X \<rightarrow> Y \<rightarrow> A\<close>, whose first account has no ring: its ring id is the id of the
  shell-chain ring, not of its cycle ring.
\<close>

theorem C1_counterexample:
  "account_id (suspicious_accounts (runDetection shared_account_input) ! 0) = ''A'' \<and>
   sa_ring_id (suspicious_accounts (runDetection shared_account_input) ! 0) = Some ''RING_002'' \<and>
   ring_id (fraud_rings (runDetection shared_account_input) ! 0) = ''RING_001'' \<and>
   pattern_type (fraud_rings (runDetection shared_account_input) ! 0) = ''cycle'' \<and>
   member_accounts (fraud_rings (runDetection shared_account_input) ! 0) = [''A'', ''B'', ''C''] \<and>
   account_id (suspicious_accounts (runDetection cycle_then_chain_input) ! 0) = ''A'' \<and>
   sa_ring_id (suspicious_accounts (runDetection cycle_then_chain_input) ! 0) = Some ''RING_002'' \<and>
   ring_id (fraud_rings (runDetection cycle_then_chain_input) ! 0) = ''RING_001'' \<and>
   pattern_type (fraud_rings (runDetection cycle_then_chain_input) ! 0) = ''cycle'' \<and>
   member_accounts (fraud_rings (runDetection cycle_then_chain_input) ! 0) = [''A'', ''B'', ''C''] \<and>
   pattern_type (fraud_rings (runDetection cycle_then_chain_input) ! 1) = ''shell_chain''"
  by code_simp

text \<open>
  C10. Ring ids are pairwise different, and every emitted account that carries a ring id
  is listed among the members of the ring with that id.
\<close>

theorem C10_ring_lists_account:
  "distinct (map ring_id (fraud_rings (runDetection txs))) \<and>
   (\<forall>sa \<in> set (suspicious_accounts (runDetection txs)). \<forall>r. sa_ring_id sa = Some r \<longrightarrow>
      (\<exists>ring \<in> set (fraud_rings (runDetection txs)).
          ring_id ring = r \<and> account_id sa \<in> set (member_accounts ring)))"
proof (intro conjI ballI allI impI)
  show "distinct (map ring_id (fraud_rings (runDetection txs)))" by (rule ring_ids_distinct)
next
  fix sa r
  assume "sa \<in> set (suspicious_accounts (runDetection txs))" and r: "sa_ring_id sa = Some r"
  then have "sa_ring_id sa = ringOf (accumulate txs) (account_id sa)"
    unfolding emitted_iff by auto
  then have "lastAssigned (fraud_rings (runDetection txs)) (account_id sa) = Some r"
    using r by (simp add: ringOf_lastAssigned fraud_rings_runDetection)
  then obtain ring where "ring \<in> set (fraud_rings (runDetection txs))" "ring_id ring = r"
    "assigns ring (account_id sa)"
    using lastAssigned_in by blast
  then show "\<exists>ring \<in> set (fraud_rings (runDetection txs)).
          ring_id ring = r \<and> account_id sa \<in> set (member_accounts ring)"
    using assigns_member by blast
qed

theorem C10_witness:
  "sa_ring_id (hd (suspicious_accounts (runDetection cycle_then_chain_input))) = Some ''RING_002'' \<and>
   (\<exists>ring \<in> set (fraud_rings (runDetection cycle_then_chain_input)).
       ring_id ring = ''RING_002'' \<and>
       account_id (hd (suspicious_accounts (runDetection cycle_then_chain_input))) \<in> set (member_accounts ring))"
proof -
  have e: "map account_id (suspicious_accounts (runDetection cycle_then_chain_input)) = [''A'', ''B'', ''C'', ''Y'', ''X'']"
    by code_simp
  have h: "hd (suspicious_accounts (runDetection cycle_then_chain_input)) \<in>
           set (suspicious_accounts (runDetection cycle_then_chain_input))"
    using e by (cases "suspicious_accounts (runDetection cycle_then_chain_input)") auto
  have r: "sa_ring_id (hd (suspicious_accounts (runDetection cycle_then_chain_input))) = Some ''RING_002''"
    by code_simp
  from C10_ring_lists_account[of cycle_then_chain_input] h r show ?thesis
    by blast
qed

section \<open>The false-positive filter\<close>







lemma hasStructuralTag_concat:
  "hasStructuralTag (concat xss) \<longleftrightarrow> (\<exists>xs \<in> set xss. hasStructuralTag xs)"
  by (auto simp: hasStructuralTag_def)

lemma hasStructuralTag_Nil [simp]: "\<not> hasStructuralTag []"
  by (simp add: hasStructuralTag_def)









section \<open>Ring risk scores\<close>

lemma emitted_score:
  assumes "sa \<in> set (suspicious_accounts (runDetection txs))"
  shows "0 \<le> suspicion_score sa \<and> suspicion_score sa \<le> 100"
proof -
  from assms obtain a s where s: "map_of (scores (accumulate txs)) a = Some s" "0 < s"
    and sa: "suspicion_score sa = js_round (s * 10) / 10"
    unfolding emitted_iff by auto
  have "score_is a (accumulate txs) (totalPoints txs a)" by (rule accumulate_tracked)
  then have "s = min 100 (of_nat (totalPoints txs a))"
    using s by (auto simp: score_is_def split: if_splits)
  then have "suspicion_score sa = min 100 (of_nat (totalPoints txs a))"
    unfolding sa by (simp only: round_capped)
  then show ?thesis by simp
qed

lemma emitted_ids_distinct: "distinct (map account_id (suspicious_accounts (runDetection txs)))"
proof -
  let ?st = "accumulate txs"
  let ?emit = "emitAccount (buildGraph txs) txs ?st"
  have sub: "distinct (map fst es) \<Longrightarrow>
             distinct (map account_id (concat (map ?emit es))) \<and>
             account_id ` set (concat (map ?emit es)) \<subseteq> fst ` set es" for es
    by (induction es) (auto simp: emitAccount_def)
  have "distinct (map account_id (concat (map ?emit (scores ?st))))"
    using sub[OF scores_distinct] by blast
  then have "distinct (concat (map ?emit (scores ?st))) \<and>
             inj_on account_id (set (concat (map ?emit (scores ?st))))"
    by (simp only: distinct_map)
  then have "distinct (sort_key (\<lambda>a. - suspicion_score a) (concat (map ?emit (scores ?st)))) \<and>
             inj_on account_id (set (sort_key (\<lambda>a. - suspicion_score a) (concat (map ?emit (scores ?st)))))"
    by (simp only: distinct_sort set_sort)
  then show ?thesis
    by (simp only: suspicious_accounts_runDetection suspiciousOf_def distinct_map)
qed

lemma memberScore_present:
  assumes "sa \<in> set (suspicious_accounts (runDetection txs))"
  shows "memberScore (suspicious_accounts (runDetection txs)) (account_id sa) = suspicion_score sa"
proof -
  let ?xs = "suspicious_accounts (runDetection txs)"
  have d: "distinct (map account_id ?xs)" by (rule emitted_ids_distinct)
  obtain sa' where f: "find (\<lambda>x. account_id x = account_id sa) ?xs = Some sa'"
    using assms by (cases "find (\<lambda>x. account_id x = account_id sa) ?xs") (auto simp: find_None_iff)
  then have "sa' \<in> set ?xs" "account_id sa' = account_id sa"
    by (auto simp: find_Some_iff)
  moreover have "inj_on account_id (set ?xs)" using d by (simp only: distinct_map)
  ultimately have "sa' = sa"
    using assms inj_onD[of account_id "set ?xs" sa' sa] by blast
  then show ?thesis using f by (simp add: memberScore_def)
qed

lemma memberScore_absent:
  "m \<notin> account_id ` set accts \<Longrightarrow> memberScore accts m = 0"
proof -
  assume "m \<notin> account_id ` set accts"
  then have "find (\<lambda>a. account_id a = m) accts = None"
    by (auto simp: find_None_iff)
  then show ?thesis by (simp add: memberScore_def)
qed

lemma memberScore_range:
  "0 \<le> memberScore (suspicious_accounts (runDetection txs)) m \<and>
   memberScore (suspicious_accounts (runDetection txs)) m \<le> 100"
proof (cases "m \<in> account_id ` set (suspicious_accounts (runDetection txs))")
  case True
  then obtain sa where "sa \<in> set (suspicious_accounts (runDetection txs))" "account_id sa = m"
    by auto
  then show ?thesis using memberScore_present[of sa txs] emitted_score[of sa txs] by simp
next
  case False
  then show ?thesis by (simp add: memberScore_absent)
qed

lemma foldl_plus: "foldl (+) a xs = a + sum_list (xs :: rat list)"
  by (induction xs arbitrary: a) (simp_all add: add.assoc)

lemma sum_list_range:
  "\<forall>x \<in> set xs. 0 \<le> x \<and> x \<le> c \<Longrightarrow> 0 \<le> sum_list xs \<and> sum_list xs \<le> c * of_nat (length xs)"
  for xs :: "rat list"
  by (induction xs) (auto simp: algebra_simps)

lemma js_round_range:
  assumes "0 \<le> x" "x \<le> 100"
  shows "0 \<le> js_round (x * 10) / 10 \<and> js_round (x * 10) / 10 \<le> 100"
proof -
  define k where "k = \<lfloor>x * 10 + 1 / 2\<rfloor>"
  have "k \<le> 1000" unfolding k_def using assms by (simp add: floor_le_iff)
  then have u: "(of_int k :: rat) \<le> 1000" by linarith
  have "0 \<le> k" unfolding k_def using assms by simp
  then have l: "(0 :: rat) \<le> of_int k" by linarith
  have "js_round (x * 10) = of_int k" by (simp add: js_round_def k_def)
  then show ?thesis using u l by simp
qed

lemma weighted_bounds:
  "0 \<le> m \<Longrightarrow> m \<le> 100 \<Longrightarrow> 0 \<le> a \<Longrightarrow> a \<le> 100 \<Longrightarrow>
   0 \<le> m * (6 / 10) + a * (4 / 10) \<and> m * (6 / 10) + a * (4 / 10) \<le> (100 :: rat)"
  by simp

lemma weighted_range:
  assumes ne: "ms \<noteq> []" and r: "\<forall>x \<in> set ms. 0 \<le> x \<and> x \<le> 100"
  shows "0 \<le> Max (set ms) * (6 / 10) + (sum_list ms / of_nat (length ms)) * (4 / 10) \<and>
         Max (set ms) * (6 / 10) + (sum_list ms / of_nat (length ms)) * (4 / 10) \<le> (100 :: rat)"
proof -
  obtain x where x: "x \<in> set ms" using ne by (cases ms) auto
  have "x \<le> Max (set ms)" using x by simp
  moreover have "Max (set ms) \<in> set ms" using ne by (intro Max_in) simp_all
  moreover have "0 \<le> x" using r x by blast
  ultimately have m: "0 \<le> Max (set ms)" "Max (set ms) \<le> 100"
    using r by (linarith, blast)
  have l: "0 < (of_nat (length ms) :: rat)" using ne by simp
  have s: "0 \<le> sum_list ms" "sum_list ms \<le> 100 * of_nat (length ms)"
    using sum_list_range[OF r] by auto
  have a: "0 \<le> sum_list ms / of_nat (length ms)" using s l by simp
  have b: "sum_list ms / of_nat (length ms) \<le> 100" using s l by (simp add: pos_divide_le_eq)
  show ?thesis using m a b by (intro weighted_bounds)
qed

lemma ring_members_nonempty:
  "ring \<in> set (fraud_rings (runDetection txs)) \<Longrightarrow> member_accounts ring \<noteq> []"
proof -
  assume "ring \<in> set (fraud_rings (runDetection txs))"
  then obtain r where "r \<in> set (fraudRings (accumulate txs))"
    "ring = updateRisk (suspicious_accounts (runDetection txs)) r"
    by (auto simp: fraud_rings_runDetection)
  moreover have "\<forall>r \<in> set (fraudRings (accumulate txs)). member_accounts r \<noteq> []"
    using ring_inv_accumulate[of txs] unfolding ring_inv_def by blast
  ultimately show ?thesis by simp
qed

lemma updateRisk_members [simp]:
  "member_accounts (updateRisk accts (updateRisk accts r)) = member_accounts r"
  by simp

text \<open>
  C7. Every emitted ring has members, and its final risk score is 0.6 times the maximum
  plus 0.4 times the mean of its members' scores in the emitted account list, rounded to
  one decimal place and capped at 100 (the cap never binds: the score lies between 0 and
  100). A member that is in the emitted list counts with its emitted score, any other
  member with 0.
\<close>

theorem C7_ring_risk_score:
  "(\<forall>ring \<in> set (fraud_rings (runDetection txs)).
      member_accounts ring \<noteq> [] \<and>
      risk_score ring =
        min 100 (js_round
          ((6 / 10 * Max (set (map (memberScore (suspicious_accounts (runDetection txs))) (member_accounts ring)))
            + 4 / 10 * (sum_list (map (memberScore (suspicious_accounts (runDetection txs))) (member_accounts ring))
                        / of_nat (length (member_accounts ring)))) * 10) / 10) \<and>
      0 \<le> risk_score ring \<and> risk_score ring \<le> 100) \<and>
   (\<forall>sa \<in> set (suspicious_accounts (runDetection txs)).
      memberScore (suspicious_accounts (runDetection txs)) (account_id sa) = suspicion_score sa) \<and>
   (\<forall>m. m \<notin> account_id ` set (suspicious_accounts (runDetection txs)) \<longrightarrow>
      memberScore (suspicious_accounts (runDetection txs)) m = 0)"
proof (intro conjI ballI allI impI)
  fix ring
  assume ring: "ring \<in> set (fraud_rings (runDetection txs))"
  let ?accts = "suspicious_accounts (runDetection txs)"
  let ?ms = "map (memberScore ?accts) (member_accounts ring)"
  show ne: "member_accounts ring \<noteq> []" using ring by (rule ring_members_nonempty)
  obtain r where r: "ring = updateRisk ?accts r"
    using ring by (auto simp: fraud_rings_runDetection)
  have mem: "member_accounts r = member_accounts ring" by (simp add: r)
  have ms: "?ms \<noteq> []" using ne by simp
  have rng: "\<forall>x \<in> set ?ms. 0 \<le> x \<and> x \<le> 100" using memberScore_range by auto
  let ?x = "Max (set ?ms) * (6 / 10) + (sum_list ?ms / of_nat (length ?ms)) * (4 / 10)"
  have ne_r: "member_accounts r \<noteq> []" using ne mem by simp
  have "risk_score (updateRisk ?accts r) =
          js_round ((Max (set (map (memberScore ?accts) (member_accounts r))) * (6 / 10)
             + (sum_list (map (memberScore ?accts) (member_accounts r))
                / of_nat (length (map (memberScore ?accts) (member_accounts r)))) * (4 / 10)) * 10) / 10"
    using ne_r by (simp add: updateRisk_def Let_def foldl_plus)
  then have risk: "risk_score ring = js_round (?x * 10) / 10"
    unfolding mem r[symmetric] .
  have x: "0 \<le> ?x \<and> ?x \<le> 100" using weighted_range[OF ms rng] .
  from js_round_range[of ?x] x
  have b: "0 \<le> js_round (?x * 10) / 10 \<and> js_round (?x * 10) / 10 \<le> 100" by blast
  then show "0 \<le> risk_score ring" "risk_score ring \<le> 100" by (simp_all add: risk)
  show "risk_score ring =
        min 100 (js_round
          ((6 / 10 * Max (set ?ms) + 4 / 10 * (sum_list ?ms / of_nat (length (member_accounts ring)))) * 10) / 10)"
    using b by (simp add: risk mult.commute)
next
  fix sa assume "sa \<in> set (suspicious_accounts (runDetection txs))"
  then show "memberScore (suspicious_accounts (runDetection txs)) (account_id sa) = suspicion_score sa"
    by (rule memberScore_present)
next
  fix m assume "m \<notin> account_id ` set (suspicious_accounts (runDetection txs))"
  then show "memberScore (suspicious_accounts (runDetection txs)) m = 0"
    by (rule memberScore_absent)
qed

theorem C7_witness:
  "member_accounts (fraud_rings (runDetection cycle_then_chain_input) ! 1) = [''X'', ''Y'', ''A''] \<and>
   risk_score (fraud_rings (runDetection cycle_then_chain_input) ! 1) = 947 / 10 \<and>
   risk_score (fraud_rings (runDetection cycle_then_chain_input) ! 1) =
     min 100 (js_round
       ((6 / 10 * Max (set (map (memberScore (suspicious_accounts (runDetection cycle_then_chain_input)))
                             (member_accounts (fraud_rings (runDetection cycle_then_chain_input) ! 1))))
         + 4 / 10 * (sum_list (map (memberScore (suspicious_accounts (runDetection cycle_then_chain_input)))
                                (member_accounts (fraud_rings (runDetection cycle_then_chain_input) ! 1)))
                     / of_nat (length (member_accounts (fraud_rings (runDetection cycle_then_chain_input) ! 1))))) * 10)
       / 10)"
proof -
  have l: "1 < length (fraud_rings (runDetection cycle_then_chain_input))"
    by code_simp
  then have h: "fraud_rings (runDetection cycle_then_chain_input) ! 1 \<in>
                set (fraud_rings (runDetection cycle_then_chain_input))"
    by (rule nth_mem)
  have m: "member_accounts (fraud_rings (runDetection cycle_then_chain_input) ! 1) = [''X'', ''Y'', ''A'']"
    by code_simp
  have r: "risk_score (fraud_rings (runDetection cycle_then_chain_input) ! 1) = 947 / 10"
    by code_simp
  from C7_ring_risk_score[of cycle_then_chain_input] h m r show ?thesis
    by blast
qed

section \<open>The smurfing detector\<close>

subsection \<open>The sliding window\<close>











subsection \<open>Grouping by receiver and by sender\<close>















section \<open>Properties of the CSV parser\<close>

lemma parseRow_Accepted:
  "parseRow mkDate headers rowNum line = Accepted t \<Longrightarrow>
   amount t = parseFloat (trim (colAt (parseCSVLine (trim line)) (colIndex headers ''amount''))) \<and>
   amount t \<noteq> NaN"
  by (auto simp: parseRow_def Let_def split: if_splits option.splits)

lemma parseRow_NaN:
  assumes "parseFloat (trim (colAt (parseCSVLine (trim line)) (colIndex headers ''amount''))) = NaN"
  shows "parseRow mkDate headers rowNum line = Skipped \<or>
         (\<exists>e. parseRow mkDate headers rowNum line = Rejected e \<and> row e = rowNum)"
  using assms by (auto simp: parseRow_def Let_def split: if_splits option.splits)

lemma rowStep_amounts:
  "\<forall>t \<in> set (transactions res). amount t \<noteq> NaN \<Longrightarrow>
   \<forall>t \<in> set (transactions (rowStep mkDate headers res il)). amount t \<noteq> NaN"
  using parseRow_Accepted[of mkDate headers "fst il + 1" "snd il"]
  by (cases "parseRow mkDate headers (fst il + 1) (snd il)") (auto simp: rowStep_def)

lemma rows_amounts:
  "\<forall>t \<in> set (transactions res). amount t \<noteq> NaN \<Longrightarrow>
   \<forall>t \<in> set (transactions (foldl (rowStep mkDate headers) res ils)). amount t \<noteq> NaN"
proof (induction ils arbitrary: res)
  case Nil
  then show ?case by simp
next
  case (Cons il ils)
  have "\<forall>t \<in> set (transactions (rowStep mkDate headers res il)). amount t \<noteq> NaN"
    using Cons.prems by (rule rowStep_amounts)
  from Cons.IH[OF this] show ?case by simp
qed

text \<open>
  C9, as the code has it. Every transaction in the parse result has an amount that is a
  number: a row whose amount field does not parse to a number is never emitted, it is
  skipped as blank or rejected with an error of its row. The sign of the amount is not
  checked.
\<close>

theorem C9_amounts_are_numbers:
  "(\<forall>t \<in> set (transactions (parseCSV mkDate csvText)). amount t \<noteq> NaN) \<and>
   (\<forall>headers rowNum line.
      parseFloat (trim (colAt (parseCSVLine (trim line)) (colIndex headers ''amount''))) = NaN \<longrightarrow>
      parseRow mkDate headers rowNum line = Skipped \<or>
      (\<exists>e. parseRow mkDate headers rowNum line = Rejected e \<and> row e = rowNum))"
proof (intro conjI allI impI)
  have "\<forall>t \<in> set (transactions \<lparr>transactions = [], errors = []\<rparr>). amount t \<noteq> NaN" by simp
  from rows_amounts[OF this] show "\<forall>t \<in> set (transactions (parseCSV mkDate csvText)). amount t \<noteq> NaN"
    by (simp add: parseCSV_def Let_def)
next
  fix headers rowNum line
  assume "parseFloat (trim (colAt (parseCSVLine (trim line)) (colIndex headers ''amount''))) = NaN"
  then show "parseRow mkDate headers rowNum line = Skipped \<or>
      (\<exists>e. parseRow mkDate headers rowNum line = Rejected e \<and> row e = rowNum)"
    by (rule parseRow_NaN)
qed

text \<open>
  C9 as stated fails: the row with amount \<open>-750.00\<close> is emitted, with no error.
\<close>

theorem C9_counterexample:
  "parseCSV utcDate negative_amount_csv =
     \<lparr>transactions =
        [\<lparr>transaction_id = ''TXN_0001'', sender_id = ''ACC_001'', receiver_id = ''ACC_002'',
          amount = Finite (- 750), timestamp = 1705311000000\<rparr>],
      errors = []\<rparr>"
  by code_simp

theorem C9_witness:
  "transactions (parseCSV utcDate negative_amount_csv) \<noteq> [] \<and>
   amount (hd (transactions (parseCSV utcDate negative_amount_csv))) \<noteq> NaN \<and>
   parseRow utcDate REQUIRED_COLUMNS 2 ''T1,A,B,abc,2024-01-15 09:30:00'' =
     Rejected \<lparr>row = 2, message = ''Row 2: Invalid amount '' @ [CHR 0x22] @ ''abc'' @
                 [CHR 0x22, CHR '' '', CHR 0xE2, CHR 0x80, CHR 0x94] @ '' must be a number.''\<rparr>"
proof -
  have n: "transactions (parseCSV utcDate negative_amount_csv) \<noteq> []"
    by code_simp
  then have "hd (transactions (parseCSV utcDate negative_amount_csv)) \<in>
             set (transactions (parseCSV utcDate negative_amount_csv))"
    by simp
  with C9_amounts_are_numbers[of utcDate negative_amount_csv]
  have a: "amount (hd (transactions (parseCSV utcDate negative_amount_csv))) \<noteq> NaN"
    by blast
  have r: "parseRow utcDate REQUIRED_COLUMNS 2 ''T1,A,B,abc,2024-01-15 09:30:00'' =
     Rejected \<lparr>row = 2, message = ''Row 2: Invalid amount '' @ [CHR 0x22] @ ''abc'' @
                 [CHR 0x22, CHR '' '', CHR 0xE2, CHR 0x80, CHR 0x94] @ '' must be a number.''\<rparr>"
    by code_simp
  show ?thesis using n a r by blast
qed

end
